theory Spec2Isabelle
  imports Main
begin

section \<open>Strings\<close>

text \<open>
  The program is TypeScript; its strings are sequences of UTF-16 code units. The model
  uses \<^typ>\<open>string\<close>, whose characters are read as the code units U+0000 to U+00FF.
  Text with other code units is outside the model.
\<close>

abbreviation dquote :: char where "dquote \<equiv> CHR 0x22"
abbreviation comma :: char where "comma \<equiv> CHR 0x2C"
abbreviation hyphen :: char where "hyphen \<equiv> CHR 0x2D"
abbreviation LF :: char where "LF \<equiv> CHR 0x0A"
abbreviation CR :: char where "CR \<equiv> CHR 0x0D"

text \<open>The white space and line terminators that \<^verbatim>\<open>String.prototype.trim\<close> strips,
  among the code units below U+0100: TAB, LF, VT, FF, CR, SP and NBSP.\<close>

definition isWhiteSpace :: "char \<Rightarrow> bool" where
  "isWhiteSpace c \<longleftrightarrow>
     c = CHR 0x09 \<or> c = CHR 0x0A \<or> c = CHR 0x0B \<or> c = CHR 0x0C \<or> c = CHR 0x0D \<or>
     c = CHR 0x20 \<or> c = CHR 0xA0"

definition trim :: "string \<Rightarrow> string" where
  "trim s = rev (dropWhile isWhiteSpace (rev (dropWhile isWhiteSpace s)))"

text \<open>\<^verbatim>\<open>toLowerCase\<close>: A to Z and the Latin-1 capitals U+00C0 to U+00DE (without the
  multiplication sign U+00D7) move up by 0x20, which sets bit 5; nothing else changes.\<close>

definition isUpper :: "char \<Rightarrow> bool" where
  "isUpper c \<longleftrightarrow>
     (let n = (of_char c :: nat)
      in (65 \<le> n \<and> n \<le> 90) \<or> (192 \<le> n \<and> n \<le> 222 \<and> n \<noteq> 215))"

fun lowerChar :: "char \<Rightarrow> char" where
  "lowerChar (Char b0 b1 b2 b3 b4 b5 b6 b7) =
     (if isUpper (Char b0 b1 b2 b3 b4 b5 b6 b7) then Char b0 b1 b2 b3 b4 True b6 b7
      else Char b0 b1 b2 b3 b4 b5 b6 b7)"

definition toLowerCase :: "string \<Rightarrow> string" where
  "toLowerCase s = map lowerChar s"

text \<open>\<^verbatim>\<open>Array.prototype.join\<close> on an array of strings.\<close>

fun join :: "string \<Rightarrow> string list \<Rightarrow> string" where
  "join sep [] = []"
| "join sep [x] = x"
| "join sep (x # y # ys) = x @ sep @ join sep (y # ys)"

text \<open>\<^verbatim>\<open>String.prototype.split\<close> with a separator of one character: the scan keeps the
  piece read so far and closes it at every separator and at the end.\<close>

fun split_loop :: "char \<Rightarrow> string \<Rightarrow> string \<Rightarrow> string list" where
  "split_loop sep cur [] = [cur]"
| "split_loop sep cur (c # s) =
     (if c = sep then cur # split_loop sep [] s else split_loop sep (cur @ [c]) s)"

definition split :: "char \<Rightarrow> string \<Rightarrow> string list" where
  "split sep s = split_loop sep [] s"

text \<open>\<^verbatim>\<open>text.split(/\r?\n/)\<close>: a line ends at LF, or at CR LF; a CR alone is kept.\<close>

fun split_lines_loop :: "string \<Rightarrow> string \<Rightarrow> string list" where
  "split_lines_loop cur [] = [cur]"
| "split_lines_loop cur (c # s) =
     (if c = CR \<and> s \<noteq> [] \<and> hd s = LF then cur # split_lines_loop [] (tl s)
      else if c = LF then cur # split_lines_loop [] s
      else split_lines_loop (cur @ [c]) s)"

definition split_lines :: "string \<Rightarrow> string list" where
  "split_lines text = split_lines_loop [] text"

text \<open>A number inside a template literal: its decimal digits.\<close>

definition digit_char :: "nat \<Rightarrow> char" where
  "digit_char d = ''0123456789'' ! d"

function string_of_nat :: "nat \<Rightarrow> string" where
  "string_of_nat n =
     (if n < 10 then [digit_char n] else string_of_nat (n div 10) @ [digit_char (n mod 10)])"
  by pat_completeness auto
termination
  by (relation "measure id") auto

declare string_of_nat.simps [simp del]

section \<open>The row tokenizer\<close>

text \<open>
  \<^verbatim>\<open>robustParseCsvRow\<close> (src/App.tsx): the loop over the characters of the row, with
  its three variables \<^verbatim>\<open>values\<close>, \<^verbatim>\<open>currentVal\<close> and \<^verbatim>\<open>inQuotes\<close>. The first argument is
  the part of the row from index \<^verbatim>\<open>i\<close> on; the test \<^verbatim>\<open>i + 1 < row.length\<close> is that the rest
  after the current character is not empty, and \<^verbatim>\<open>i++\<close> drops its head.
\<close>

fun robustParseCsvRow_loop :: "string \<Rightarrow> string list \<Rightarrow> string \<Rightarrow> bool \<Rightarrow> string list" where
  "robustParseCsvRow_loop [] values currentVal inQuotes = values @ [trim currentVal]"
| "robustParseCsvRow_loop (c # rest) values currentVal inQuotes =
     (if c = dquote then
        (if inQuotes \<and> rest \<noteq> [] \<and> hd rest = dquote
         then robustParseCsvRow_loop (tl rest) values (currentVal @ [dquote]) inQuotes
         else robustParseCsvRow_loop rest values currentVal (\<not> inQuotes))
      else if c = comma \<and> \<not> inQuotes
        then robustParseCsvRow_loop rest (values @ [trim currentVal]) [] inQuotes
      else robustParseCsvRow_loop rest values (currentVal @ [c]) inQuotes)"

definition robustParseCsvRow :: "string \<Rightarrow> string list" where
  "robustParseCsvRow row = robustParseCsvRow_loop row [] [] False"

section \<open>Records and outcomes\<close>

text \<open>The interfaces of src/types.ts.\<close>

record AccountDetails =
  beneficiaryName :: string
  bankName :: string
  accountNumber :: string
  bvn :: string

record VerificationResultData =
  success :: bool
  message :: string
  data :: "AccountDetails option"

text \<open>The part of the React state that the bulk handlers write.\<close>

record app_state =
  verificationResult :: "VerificationResultData option"
  bulkResults :: "VerificationResultData list"
  isBulkVerifying :: bool
  isModalOpen :: bool
  isBulkModalOpen :: bool

text \<open>The initial values given to \<^verbatim>\<open>useState\<close>.\<close>

definition initial_state :: app_state where
  "initial_state =
     \<lparr> verificationResult = None, bulkResults = [], isBulkVerifying = False,
       isModalOpen = False, isBulkModalOpen = False \<rparr>"

text \<open>
  \<^verbatim>\<open>verifyAccountDetails\<close> is an external call: awaited, it either resolves to an outcome
  or rejects with a thrown value, which is an \<^verbatim>\<open>Error\<close> object with its message or
  anything else. Its answers may depend on the outside world and change it, so a verifier
  takes and returns a world \<open>'w\<close>.
\<close>

datatype thrown = ErrorObject string | OtherValue

datatype verify_reply = Resolves VerificationResultData | Rejects thrown

type_synonym 'w verifier = "AccountDetails \<Rightarrow> 'w \<Rightarrow> verify_reply \<times> 'w"

section \<open>Bulk upload: parsing and validation\<close>

definition requiredHeaders :: "string list" where
  "requiredHeaders = [''beneficiaryName'', ''bankName'', ''accountNumber'', ''bvn'']"

text \<open>\<^verbatim>\<open>text.split(/\r?\n/).filter(line => line.trim() !== '')\<close>\<close>

definition csv_lines :: "string \<Rightarrow> string list" where
  "csv_lines text = filter (\<lambda>line. trim line \<noteq> []) (split_lines text)"

definition missingHeaders :: "string list \<Rightarrow> string list" where
  "missingHeaders header = filter (\<lambda>rh. rh \<notin> set header) requiredHeaders"

text \<open>\<^verbatim>\<open>header.reduce((acc, col, index) => { acc[col.trim()] = index; return acc; }, {})\<close>:
  a later column overwrites an earlier one of the same name. The object is read at the
  four required names only, where a lookup finds the own property or nothing; the model
  says nothing about names that a JavaScript object inherits, such as \<^verbatim>\<open>__proto__\<close>.\<close>

definition headerMap :: "string list \<Rightarrow> (string \<rightharpoonup> nat)" where
  "headerMap header =
     fold (\<lambda>(index, col) acc. acc(trim col \<mapsto> index)) (enumerate 0 header) Map.empty"

text \<open>\<^verbatim>\<open>data[headerMap[name]] ?? ''\<close>: an absent name or an index outside the row reads
  \<^verbatim>\<open>undefined\<close>, which becomes the empty string.\<close>

fun cell :: "string list \<Rightarrow> nat option \<Rightarrow> string" where
  "cell row None = []"
| "cell row (Some i) = (if i < length row then row ! i else [])"

definition buildAccount :: "(string \<rightharpoonup> nat) \<Rightarrow> string list \<Rightarrow> AccountDetails" where
  "buildAccount hm row =
     \<lparr> beneficiaryName = cell row (hm ''beneficiaryName''),
       bankName = cell row (hm ''bankName''),
       accountNumber = cell row (hm ''accountNumber''),
       bvn = cell row (hm ''bvn'') \<rparr>"

text \<open>\<^verbatim>\<open>Object.values(account)\<close>\<close>

definition values_of :: "AccountDetails \<Rightarrow> string list" where
  "values_of account =
     [beneficiaryName account, bankName account, accountNumber account, bvn account]"

definition rowError :: "nat \<Rightarrow> nat \<Rightarrow> nat \<Rightarrow> string" where
  "rowError index expected found =
     ''Row '' @ string_of_nat (index + 2) @ '': Mismatched column count. Expected ''
       @ string_of_nat expected @ '', but found '' @ string_of_nat found @ ''.''"

text \<open>
  \<^verbatim>\<open>lines.slice(1).forEach((line, index) => ...)\<close>: the loop over the data lines, with the
  two arrays it pushes to, \<^verbatim>\<open>accountsToVerify\<close> and \<^verbatim>\<open>parsingErrors\<close>.
\<close>

fun forEach_line ::
  "nat \<Rightarrow> (string \<rightharpoonup> nat) \<Rightarrow> string list \<Rightarrow> nat \<Rightarrow> AccountDetails list \<times> string list
     \<Rightarrow> AccountDetails list \<times> string list" where
  "forEach_line hlen hm [] index st = st"
| "forEach_line hlen hm (line # lines) index (accountsToVerify, parsingErrors) =
     (let row = robustParseCsvRow line in
      if length row \<noteq> hlen
        then forEach_line hlen hm lines (index + 1)
               (accountsToVerify, parsingErrors @ [rowError index hlen (length row)])
      else
        (let account = buildAccount hm row in
         if \<exists>val \<in> set (values_of account). trim val \<noteq> []
           then forEach_line hlen hm lines (index + 1)
                  (accountsToVerify @ [account], parsingErrors)
         else forEach_line hlen hm lines (index + 1) (accountsToVerify, parsingErrors)))"

text \<open>
  The duplicate check. \<^verbatim>\<open>seen\<close> is a \<^verbatim>\<open>Map\<close>, which iterates in the order of first
  insertion: an association list in which \<^verbatim>\<open>set\<close> overwrites in place or appends.
\<close>

fun map_set :: "string \<Rightarrow> nat \<Rightarrow> (string \<times> nat) list \<Rightarrow> (string \<times> nat) list" where
  "map_set k v [] = [(k, v)]"
| "map_set k v ((k', v') # m) = (if k' = k then (k, v) # m else (k', v') # map_set k v m)"

definition duplicateKey :: "AccountDetails \<Rightarrow> string" where
  "duplicateKey account =
     toLowerCase (trim (accountNumber account) @ ''-'' @ trim (bankName account))"

fun seen_loop :: "AccountDetails list \<Rightarrow> (string \<times> nat) list \<Rightarrow> (string \<times> nat) list" where
  "seen_loop [] seen = seen"
| "seen_loop (account # accounts) seen =
     (let key = duplicateKey account in
      if key \<noteq> ''-''
        then seen_loop accounts
               (map_set key ((case map_of seen key of None \<Rightarrow> 0 | Some n \<Rightarrow> n) + 1) seen)
      else seen_loop accounts seen)"

definition duplicates_of :: "AccountDetails list \<Rightarrow> string list" where
  "duplicates_of accounts =
     map fst (filter (\<lambda>(key, count). count > 1) (seen_loop accounts []))"

text \<open>\<^verbatim>\<open>const [acc, bank] = d.split('-')\<close> inside a template literal: a missing part prints
  as \<^verbatim>\<open>undefined\<close>.\<close>

definition template_part :: "string list \<Rightarrow> nat \<Rightarrow> string" where
  "template_part parts i = (if i < length parts then parts ! i else ''undefined'')"

definition duplicateMessage :: "string \<Rightarrow> string" where
  "duplicateMessage d =
     (let parts = split hyphen d
      in ''Account '' @ template_part parts 0 @ '' at '' @ template_part parts 1)"

text \<open>
  The handler from the filtered lines on, up to the start of verification:
  \<open>Inl\<close> is the message of an early return, \<open>Inr\<close> the accounts to verify.
\<close>

definition parseLines :: "string list \<Rightarrow> string + AccountDetails list" where
  "parseLines lines =
     (if length lines \<le> 1 then Inl ''CSV file is empty or contains only a header.''
      else
        (let header = robustParseCsvRow (hd lines);
             missing = missingHeaders header in
         if length missing > 0
           then Inl (''Invalid CSV header. Missing required columns: ''
                       @ join '', '' missing @ ''.'')
         else
           (let (accountsToVerify, parsingErrors) =
                  forEach_line (length header) (headerMap header) (tl lines) 0 ([], []) in
            if length parsingErrors > 0
              then Inl (''Could not parse the CSV file due to formatting issues:''
                          @ [LF, LF] @ join [LF] parsingErrors)
            else
              (let duplicates = duplicates_of accountsToVerify in
               if length duplicates > 0
                 then Inl (''Duplicate entries found in the file. Please remove them and try again. Duplicates: ''
                             @ join ''; '' (map duplicateMessage duplicates) @ ''.'')
               else Inr accountsToVerify))))"

definition parseUpload :: "string \<Rightarrow> string + AccountDetails list" where
  "parseUpload text =
     (if text = [] then Inl ''Could not read the file.'' else parseLines (csv_lines text))"

section \<open>Bulk upload: verification\<close>

text \<open>The \<^verbatim>\<open>for (const account of accountsToVerify)\<close> loop with its \<^verbatim>\<open>try\<close>/\<^verbatim>\<open>catch\<close>.\<close>

definition errorMessage :: "thrown \<Rightarrow> string" where
  "errorMessage err = (case err of ErrorObject m \<Rightarrow> m | OtherValue \<Rightarrow> ''An unknown error occurred.'')"

fun verify_loop ::
  "'w verifier \<Rightarrow> AccountDetails list \<Rightarrow> VerificationResultData list \<Rightarrow> 'w
     \<Rightarrow> VerificationResultData list \<times> 'w" where
  "verify_loop verify [] results w = (results, w)"
| "verify_loop verify (account # accounts) results w =
     (case verify account w of
        (Resolves result, w') \<Rightarrow> verify_loop verify accounts (results @ [result]) w'
      | (Rejects err, w') \<Rightarrow>
          verify_loop verify accounts
            (results @ [\<lparr> success = False, message = errorMessage err, data = Some account \<rparr>]) w')"

definition showError :: "string \<Rightarrow> app_state \<Rightarrow> app_state" where
  "showError msg st =
     st\<lparr> verificationResult := Some \<lparr> success = False, message = msg, data = None \<rparr>,
         isModalOpen := True \<rparr>"

definition handleBulkUpload :: "'w verifier \<Rightarrow> string \<Rightarrow> app_state \<times> 'w \<Rightarrow> app_state \<times> 'w" where
  "handleBulkUpload verify text = (\<lambda>(st, w).
     (case parseUpload text of
        Inl msg \<Rightarrow> (showError msg st, w)
      | Inr accountsToVerify \<Rightarrow>
          (let (results, w') = verify_loop verify accountsToVerify [] w
           in (st\<lparr> bulkResults := results, isBulkVerifying := False, isBulkModalOpen := True \<rparr>,
               w'))))"

section \<open>Export of all results\<close>

definition formatCsvField :: "string \<Rightarrow> string" where
  "formatCsvField field =
     (let cleanField = concat (map (\<lambda>c. if c = dquote then [dquote, dquote] else [c]) field)
      in if \<exists>c \<in> set cleanField. c = dquote \<or> c = comma \<or> c = LF
         then [dquote] @ cleanField @ [dquote] else cleanField)"

text \<open>\<^verbatim>\<open>data?.beneficiaryName || ''\<close> and its three siblings.\<close>

definition field_or_empty :: "(AccountDetails \<Rightarrow> string) \<Rightarrow> AccountDetails option \<Rightarrow> string" where
  "field_or_empty f d = (case d of None \<Rightarrow> [] | Some a \<Rightarrow> f a)"

definition allResultsRow :: "VerificationResultData \<Rightarrow> string" where
  "allResultsRow r =
     join '','' [field_or_empty beneficiaryName (data r),
                field_or_empty bankName (data r),
                field_or_empty accountNumber (data r),
                field_or_empty bvn (data r),
                if success r then ''Success'' else ''Failed'',
                formatCsvField (message r)]"

text \<open>\<^verbatim>\<open>handleDownloadAllResults\<close>: the text of the downloaded file; nothing is downloaded
  when there are no results.\<close>

definition handleDownloadAllResults :: "app_state \<Rightarrow> string option" where
  "handleDownloadAllResults st =
     (if length (bulkResults st) = 0 then None
      else Some (join [LF]
             (join '','' [''beneficiaryName'', ''bankName'', ''accountNumber'', ''bvn'',
                         ''status'', ''message'']
              # map allResultsRow (bulkResults st))))"

section \<open>Notions used in the statements\<close>

text \<open>A record is blank when each of its four fields is empty after trimming.\<close>

definition blankAccount :: "AccountDetails \<Rightarrow> bool" where
  "blankAccount account \<longleftrightarrow>
     trim (beneficiaryName account) = [] \<and> trim (bankName account) = [] \<and>
     trim (accountNumber account) = [] \<and> trim (bvn account) = []"

text \<open>The pair of account number and bank name, each trimmed and in lower case.\<close>

definition pairKey :: "AccountDetails \<Rightarrow> string \<times> string" where
  "pairKey account =
     (toLowerCase (trim (accountNumber account)), toLowerCase (trim (bankName account)))"

text \<open>The text with every double quote written twice, as inside a quoted cell.\<close>

definition doubleQuotes :: "string \<Rightarrow> string" where
  "doubleQuotes s = concat (map (\<lambda>c. if c = dquote then [dquote, dquote] else [c]) s)"

text \<open>No white space stands directly before or directly after a comma.\<close>

fun no_space_at_comma :: "string \<Rightarrow> bool" where
  "no_space_at_comma [] \<longleftrightarrow> True"
| "no_space_at_comma [a] \<longleftrightarrow> True"
| "no_space_at_comma (a # b # s) \<longleftrightarrow>
     \<not> (isWhiteSpace a \<and> b = comma) \<and> \<not> (a = comma \<and> isWhiteSpace b) \<and>
     no_space_at_comma (b # s)"

section \<open>The escaped-quote rule of the tokenizer\<close>

lemma loop_step:
  "inq \<and> rest \<noteq> [] \<and> hd rest = dquote \<Longrightarrow>
     robustParseCsvRow_loop (dquote # rest) vs cur inq
       = robustParseCsvRow_loop (tl rest) vs (cur @ [dquote]) inq"
  "\<not> (inq \<and> rest \<noteq> [] \<and> hd rest = dquote) \<Longrightarrow>
     robustParseCsvRow_loop (dquote # rest) vs cur inq = robustParseCsvRow_loop rest vs cur (\<not> inq)"
  "c \<noteq> dquote \<Longrightarrow> c = comma \<and> \<not> inq \<Longrightarrow>
     robustParseCsvRow_loop (c # rest) vs cur inq
       = robustParseCsvRow_loop rest (vs @ [trim cur]) [] inq"
  "c \<noteq> dquote \<Longrightarrow> \<not> (c = comma \<and> \<not> inq) \<Longrightarrow>
     robustParseCsvRow_loop (c # rest) vs cur inq = robustParseCsvRow_loop rest vs (cur @ [c]) inq"
  by (subst robustParseCsvRow_loop.simps(2), auto simp del: robustParseCsvRow_loop.simps)+

lemma loop_plain:
  "dquote \<notin> set p \<Longrightarrow> comma \<notin> set p \<Longrightarrow>
   robustParseCsvRow_loop (p @ rest) vs cur inq = robustParseCsvRow_loop rest vs (cur @ p) inq"
proof (induction p arbitrary: cur)
  case Nil
  show ?case by simp
next
  case (Cons c p)
  then have c: "c \<noteq> dquote" "\<not> (c = comma \<and> \<not> inq)"
    by auto
  from Cons have "robustParseCsvRow_loop (p @ rest) vs (cur @ [c]) inq
      = robustParseCsvRow_loop rest vs ((cur @ [c]) @ p) inq"
    by (intro Cons.IH) auto
  with loop_step(4) [OF c] show ?case
    by (simp del: robustParseCsvRow_loop.simps)
qed

lemma loop_quoted:
  "rest = [] \<or> hd rest \<noteq> dquote \<Longrightarrow>
   robustParseCsvRow_loop (doubleQuotes s @ dquote # rest) vs cur True
     = robustParseCsvRow_loop rest vs (cur @ s) False"
proof (induction s arbitrary: cur)
  case Nil
  then have "\<not> (True \<and> rest \<noteq> [] \<and> hd rest = dquote)"
    by auto
  from loop_step(2) [OF this] show ?case
    by (simp add: doubleQuotes_def del: robustParseCsvRow_loop.simps)
next
  case (Cons c s)
  show ?case
  proof (cases "c = dquote")
    case True
    let ?tail = "doubleQuotes s @ dquote # rest"
    have "robustParseCsvRow_loop (dquote # dquote # ?tail) vs cur True
        = robustParseCsvRow_loop ?tail vs (cur @ [dquote]) True"
      using loop_step(1) [of True "dquote # ?tail" vs cur] by simp
    also have "\<dots> = robustParseCsvRow_loop rest vs ((cur @ [dquote]) @ s) False"
      using Cons.prems by (rule Cons.IH)
    finally show ?thesis
      using True by (simp add: doubleQuotes_def del: robustParseCsvRow_loop.simps)
  next
    case False
    let ?tail = "doubleQuotes s @ dquote # rest"
    have "robustParseCsvRow_loop (c # ?tail) vs cur True
        = robustParseCsvRow_loop ?tail vs (cur @ [c]) True"
      using loop_step(4) [of c True ?tail vs cur] False by simp
    also have "\<dots> = robustParseCsvRow_loop rest vs ((cur @ [c]) @ s) False"
      using Cons.prems by (rule Cons.IH)
    finally show ?thesis
      using False by (simp add: doubleQuotes_def del: robustParseCsvRow_loop.simps)
  qed
qed

lemma loop_values:
  "robustParseCsvRow_loop row vs cur inq = vs @ robustParseCsvRow_loop row [] cur inq"
proof (induction "length row" arbitrary: row vs cur inq rule: less_induct)
  case less
  show ?case
  proof (cases row)
    case Nil
    then show ?thesis by simp
  next
    case (Cons c rest)
    have ih: "robustParseCsvRow_loop r vs' cur' inq' = vs' @ robustParseCsvRow_loop r [] cur' inq'"
      if "length r \<le> length rest" for r vs' cur' inq'
      using that less.hyps [of r vs' cur' inq'] Cons by simp
    consider (escaped) "c = dquote" "inq \<and> rest \<noteq> [] \<and> hd rest = dquote"
      | (toggle) "c = dquote" "\<not> (inq \<and> rest \<noteq> [] \<and> hd rest = dquote)"
      | (separator) "c \<noteq> dquote" "c = comma \<and> \<not> inq"
      | (other) "c \<noteq> dquote" "\<not> (c = comma \<and> \<not> inq)"
      by blast
    then show ?thesis
    proof cases
      case escaped
      have "length (tl rest) \<le> length rest"
        by simp
      from ih [OF this] show ?thesis
        unfolding Cons escaped(1) loop_step(1) [OF escaped(2)] .
    next
      case toggle
      have "robustParseCsvRow_loop rest vs cur (\<not> inq)
          = vs @ robustParseCsvRow_loop rest [] cur (\<not> inq)"
        by (rule ih) simp
      then show ?thesis
        unfolding Cons toggle(1) loop_step(2) [OF toggle(2)] .
    next
      case separator
      have "robustParseCsvRow_loop rest (vs @ [trim cur]) [] inq
          = (vs @ [trim cur]) @ robustParseCsvRow_loop rest [] [] inq"
        by (rule ih) simp
      moreover have "robustParseCsvRow_loop rest ([] @ [trim cur]) [] inq
          = ([] @ [trim cur]) @ robustParseCsvRow_loop rest [] [] inq"
        by (rule ih) simp
      ultimately show ?thesis
        unfolding Cons loop_step(3) [OF separator] by simp
    next
      case other
      have "robustParseCsvRow_loop rest vs (cur @ [c]) inq
          = vs @ robustParseCsvRow_loop rest [] (cur @ [c]) inq"
        by (rule ih) simp
      then show ?thesis
        unfolding Cons loop_step(4) [OF other] .
    qed
  qed
qed

text \<open>
  C7. A double quote outside a quoted span opens the span and one inside it closes it,
  neither adding to the cell; inside a span a double quote followed by a second one adds
  one double quote to the cell and the span stays open. So a cell that holds a span in
  which every double quote of \<open>s\<close> is doubled, between plain text \<open>p\<close> and \<open>q\<close>, comes out
  as the trimmed text \<open>p @ s @ q\<close>, whatever commas and double quotes \<open>s\<close> has, and the
  cells after its comma are those of the rest of the row. The row \<^verbatim>\<open>a,"b""c",d\<close> has the
  three cells \<^verbatim>\<open>a\<close>, \<^verbatim>\<open>b"c\<close>, \<^verbatim>\<open>d\<close>.
\<close>

theorem robustParseCsvRow_escaped_quote:
  \<open>(dquote \<notin> set p \<and> comma \<notin> set p \<and> dquote \<notin> set q \<and> comma \<notin> set q \<longrightarrow>
      robustParseCsvRow (p @ [dquote] @ doubleQuotes s @ [dquote] @ q) = [trim (p @ s @ q)]
    \<and> robustParseCsvRow (p @ [dquote] @ doubleQuotes s @ [dquote] @ q @ comma # tail)
        = trim (p @ s @ q) # robustParseCsvRow tail)
   \<and> robustParseCsvRow_loop (dquote # dquote # rest) values cur True
     = robustParseCsvRow_loop rest values (cur @ [dquote]) True
   \<and> robustParseCsvRow_loop (dquote # rest) values cur False
     = robustParseCsvRow_loop rest values cur True
   \<and> (rest = [] \<or> hd rest \<noteq> dquote \<longrightarrow>
        robustParseCsvRow_loop (dquote # rest) values cur True
          = robustParseCsvRow_loop rest values cur False)
   \<and> robustParseCsvRow ''a,"b""c",d'' = [''a'', ''b"c'', ''d'']\<close>
proof -
  have span: \<open>robustParseCsvRow_loop (p @ [dquote] @ doubleQuotes s @ [dquote] @ q @ rest') [] [] False
      = robustParseCsvRow_loop rest' [] (p @ s @ q) False\<close>
    if p: "dquote \<notin> set p" "comma \<notin> set p" and q: "dquote \<notin> set q" "comma \<notin> set q"
      and r: "rest' = [] \<or> hd rest' \<noteq> dquote" for rest'
  proof -
    from q r have after: "q @ rest' = [] \<or> hd (q @ rest') \<noteq> dquote"
      by (cases q) auto
    have "robustParseCsvRow_loop (p @ [dquote] @ doubleQuotes s @ [dquote] @ q @ rest') [] [] False
        = robustParseCsvRow_loop ([dquote] @ doubleQuotes s @ [dquote] @ q @ rest') [] ([] @ p) False"
      using p by (rule loop_plain)
    also have "\<dots> = robustParseCsvRow_loop (dquote # doubleQuotes s @ dquote # q @ rest') [] p False"
      by (simp del: robustParseCsvRow_loop.simps)
    also have "\<dots> = robustParseCsvRow_loop (doubleQuotes s @ dquote # q @ rest') [] p (\<not> False)"
      by (rule loop_step(2)) simp
    also have "\<dots> = robustParseCsvRow_loop (doubleQuotes s @ dquote # q @ rest') [] p True"
      by (simp del: robustParseCsvRow_loop.simps)
    also have "\<dots> = robustParseCsvRow_loop (q @ rest') [] (p @ s) False"
      using after by (rule loop_quoted)
    also have "\<dots> = robustParseCsvRow_loop rest' [] ((p @ s) @ q) False"
      using q by (rule loop_plain)
    finally show ?thesis
      by (simp del: robustParseCsvRow_loop.simps)
  qed
  have one: "robustParseCsvRow (p @ [dquote] @ doubleQuotes s @ [dquote] @ q) = [trim (p @ s @ q)]"
    if "dquote \<notin> set p" "comma \<notin> set p" "dquote \<notin> set q" "comma \<notin> set q"
    using span [OF that, of "[]"]
    by (simp add: robustParseCsvRow_def del: robustParseCsvRow_loop.simps(2))
  have many: "robustParseCsvRow (p @ [dquote] @ doubleQuotes s @ [dquote] @ q @ comma # tail)
        = trim (p @ s @ q) # robustParseCsvRow tail"
    if "dquote \<notin> set p" "comma \<notin> set p" "dquote \<notin> set q" "comma \<notin> set q"
  proof -
    have "robustParseCsvRow (p @ [dquote] @ doubleQuotes s @ [dquote] @ q @ comma # tail)
        = robustParseCsvRow_loop (comma # tail) [] (p @ s @ q) False"
      using span [OF that, of "comma # tail"]
      by (simp add: robustParseCsvRow_def del: robustParseCsvRow_loop.simps)
    also have "\<dots> = robustParseCsvRow_loop tail ([] @ [trim (p @ s @ q)]) [] False"
      by (rule loop_step(3)) simp_all
    also have "\<dots> = ([] @ [trim (p @ s @ q)]) @ robustParseCsvRow_loop tail [] [] False"
      by (rule loop_values)
    finally show ?thesis
      by (simp add: robustParseCsvRow_def del: robustParseCsvRow_loop.simps)
  qed
  have general: \<open>dquote \<notin> set p \<and> comma \<notin> set p \<and> dquote \<notin> set q \<and> comma \<notin> set q \<longrightarrow>
      robustParseCsvRow (p @ [dquote] @ doubleQuotes s @ [dquote] @ q) = [trim (p @ s @ q)]
    \<and> robustParseCsvRow (p @ [dquote] @ doubleQuotes s @ [dquote] @ q @ comma # tail)
        = trim (p @ s @ q) # robustParseCsvRow tail\<close>
    using one many by blast
  have s1: \<open>robustParseCsvRow_loop (dquote # dquote # rest) values cur True
     = robustParseCsvRow_loop rest values (cur @ [dquote]) True\<close>
    using loop_step(1) [of True "dquote # rest"] by (simp del: robustParseCsvRow_loop.simps)
  have s2: \<open>robustParseCsvRow_loop (dquote # rest) values cur False
     = robustParseCsvRow_loop rest values cur True\<close>
    using loop_step(2) [of False rest] by (simp del: robustParseCsvRow_loop.simps)
  have s3: \<open>rest = [] \<or> hd rest \<noteq> dquote \<longrightarrow>
        robustParseCsvRow_loop (dquote # rest) values cur True
          = robustParseCsvRow_loop rest values cur False\<close>
    using loop_step(2) [of True rest] by (auto simp del: robustParseCsvRow_loop.simps)
  have example: \<open>robustParseCsvRow ''a,"b""c",d'' = [''a'', ''b"c'', ''d'']\<close>
    by code_simp
  show ?thesis
    by (intro conjI general s1 s2 s3 example)
qed

theorem robustParseCsvRow_escaped_quote_witness:
  \<open>dquote \<notin> set ''a '' \<and> comma \<notin> set ''a '' \<and> dquote \<notin> set '' z'' \<and> comma \<notin> set '' z''
   \<and> doubleQuotes ''b"c,d'' = ''b""c,d''
   \<and> robustParseCsvRow ''a "b""c,d" z'' = [''a b"c,d z'']
   \<and> robustParseCsvRow ''a "b""c,d" z,e, f'' = [''a b"c,d z'', ''e'', ''f'']
   \<and> robustParseCsvRow_loop ''"x'' [] ''b'' True = robustParseCsvRow_loop ''x'' [] ''b'' False\<close>
proof -
  have h: \<open>dquote \<notin> set ''a '' \<and> comma \<notin> set ''a '' \<and> dquote \<notin> set '' z'' \<and> comma \<notin> set '' z''\<close>
    by simp
  have d: \<open>doubleQuotes ''b"c,d'' = ''b""c,d''\<close>
    by code_simp
  have t: \<open>trim (''a '' @ ''b"c,d'' @ '' z'') = ''a b"c,d z''\<close>
    by code_simp
  have m: \<open>robustParseCsvRow ''e, f'' = [''e'', ''f'']\<close>
    by code_simp
  note inst = robustParseCsvRow_escaped_quote [of "''a ''" "'' z''" \<open>''b"c,d''\<close> "''e, f''" "''x''" "[]" "''b''"]
  note quoted = inst [THEN conjunct1, THEN mp, OF h]
  have one: \<open>robustParseCsvRow ''a "b""c,d" z'' = [''a b"c,d z'']\<close>
    using quoted [THEN conjunct1] unfolding d t by simp
  have many: \<open>robustParseCsvRow ''a "b""c,d" z,e, f'' = [''a b"c,d z'', ''e'', ''f'']\<close>
    using quoted [THEN conjunct2] unfolding d t m by simp
  have step: \<open>robustParseCsvRow_loop ''"x'' [] ''b'' True = robustParseCsvRow_loop ''x'' [] ''b'' False\<close>
    using inst [THEN conjunct2, THEN conjunct2, THEN conjunct2, THEN conjunct1]
    by (simp del: robustParseCsvRow_loop.simps)
  show ?thesis
    by (intro conjI h [THEN conjunct1] h [THEN conjunct2, THEN conjunct1]
        h [THEN conjunct2, THEN conjunct2, THEN conjunct1]
        h [THEN conjunct2, THEN conjunct2, THEN conjunct2] d one many step)
qed

section \<open>Helper facts about the parsing loop\<close>

lemma some_value_iff: "(\<exists>val \<in> set (values_of account). trim val \<noteq> []) \<longleftrightarrow> \<not> blankAccount account"
  by (auto simp add: values_of_def blankAccount_def)

lemma forEach_line_eq:
  "forEach_line hlen hm lines index (accts, errs) =
     (accts @ filter (\<lambda>a. \<not> blankAccount a)
                (map (buildAccount hm)
                   (filter (\<lambda>row. length row = hlen) (map robustParseCsvRow lines))),
      errs @ map (\<lambda>(i, row). rowError i hlen (length row))
               (filter (\<lambda>(i, row). length row \<noteq> hlen)
                  (enumerate index (map robustParseCsvRow lines))))"
proof (induction lines arbitrary: index accts errs)
  case Nil
  show ?case by simp
next
  case (Cons line lines)
  show ?case
    by (simp add: Cons.IH some_value_iff Let_def del: Set.bex_simps)
qed

lemma join_snoc: "join sep (xs @ [x]) = (if xs = [] then x else join sep xs @ sep @ x)"
  by (induction sep xs rule: join.induct) auto

lemma csv_lines_Nil: "csv_lines [] = []"
  by (simp add: csv_lines_def split_lines_def trim_def)

lemma enumerate_as_indices:
  "map (\<lambda>(i, x). f i x) (filter (\<lambda>(i, x). P x) (enumerate 0 xs)) =
   map (\<lambda>i. f i (xs ! i)) (filter (\<lambda>i. P (xs ! i)) [0..<length xs])"
proof -
  have "enumerate 0 xs = map (\<lambda>i. (i, xs ! i)) [0..<length xs]"
    by (rule nth_equalityI) (simp_all add: nth_enumerate_eq)
  then show ?thesis
    by (simp add: filter_map comp_def)
qed

section \<open>Header errors\<close>

text \<open>
  C6. For an input with at least two non-blank lines, when one of the four required names is
  absent from the tokenized first line, the handler stops with the error that lists exactly
  the absent names, in the order of the required list; the message is a function of the
  first line alone, no data row is read and no verification call is made. When \<^verbatim>\<open>bvn\<close> is
  absent the message ends with \<^verbatim>\<open>bvn.\<close>
\<close>

theorem missing_header_rejects_batch:
  assumes "2 \<le> length (csv_lines text)"
    and "\<exists>rh \<in> set requiredHeaders. rh \<notin> set (robustParseCsvRow (hd (csv_lines text)))"
  shows "handleBulkUpload verify text (st, w) =
           (showError (''Invalid CSV header. Missing required columns: ''
              @ join '', '' (filter (\<lambda>rh. rh \<notin> set (robustParseCsvRow (hd (csv_lines text))))
                               [''beneficiaryName'', ''bankName'', ''accountNumber'', ''bvn''])
              @ ''.'') st, w)
         \<and> (''bvn'' \<notin> set (robustParseCsvRow (hd (csv_lines text))) \<longrightarrow>
              (\<exists>pre. verificationResult (fst (handleBulkUpload verify text (st, w))) =
                 Some \<lparr> success = False, message = pre @ ''bvn.'', data = None \<rparr>))"
proof -
  let ?header = "robustParseCsvRow (hd (csv_lines text))"
  define missing where "missing = filter (\<lambda>rh. rh \<notin> set ?header)
                    [''beneficiaryName'', ''bankName'', ''accountNumber'', ''bvn'']"
  let ?msg = "''Invalid CSV header. Missing required columns: '' @ join '', '' missing @ ''.''"
  from assms(1) have nonempty: "text \<noteq> []"
    using csv_lines_Nil by auto
  have miss_eq: "missingHeaders ?header = missing"
    by (simp add: missingHeaders_def requiredHeaders_def missing_def)
  from assms(2) have "missing \<noteq> []"
    unfolding miss_eq [symmetric] by (auto simp add: missingHeaders_def filter_empty_conv)
  with assms(1) have "parseLines (csv_lines text) = Inl ?msg"
    by (simp add: parseLines_def Let_def miss_eq)
  with nonempty have run: "handleBulkUpload verify text (st, w) = (showError ?msg st, w)"
    by (simp add: handleBulkUpload_def parseUpload_def)
  have "\<exists>pre. ?msg = pre @ ''bvn.''" if "''bvn'' \<notin> set ?header"
  proof -
    define front where "front = filter (\<lambda>rh. rh \<notin> set ?header)
                                  [''beneficiaryName'', ''bankName'', ''accountNumber'']"
    from that have "missing = front @ [''bvn'']"
      by (simp add: missing_def front_def)
    then have "join '', '' missing = (if front = [] then ''bvn'' else join '', '' front @ '', '' @ ''bvn'')"
      by (simp only: join_snoc)
    then have "\<exists>p. join '', '' missing = p @ ''bvn''"
      by (metis append.assoc append_Nil)
    then obtain p where "join '', '' missing = p @ ''bvn''" ..
    then have "?msg = (''Invalid CSV header. Missing required columns: '' @ p) @ ''bvn.''"
      by simp
    then show ?thesis by blast
  qed
  then have "''bvn'' \<notin> set ?header \<longrightarrow>
      (\<exists>pre. verificationResult (fst (handleBulkUpload verify text (st, w))) =
                 Some \<lparr> success = False, message = pre @ ''bvn.'', data = None \<rparr>)"
    unfolding run by (auto simp add: showError_def)
  with run show ?thesis
    unfolding missing_def by blast
qed


theorem missing_header_rejects_batch_witness:
  "2 \<le> length (csv_lines ''beneficiaryName,bankName,accountNumber\<newline>Ada,Zenith,0123456789'')
   \<and> (\<exists>rh \<in> set requiredHeaders. rh \<notin> set (robustParseCsvRow
          (hd (csv_lines ''beneficiaryName,bankName,accountNumber\<newline>Ada,Zenith,0123456789''))))
   \<and> handleBulkUpload (\<lambda>a w. (Rejects OtherValue, w))
        ''beneficiaryName,bankName,accountNumber\<newline>Ada,Zenith,0123456789'' (initial_state, ())
      = (showError ''Invalid CSV header. Missing required columns: bvn.'' initial_state, ())"
proof -
  let ?text = "''beneficiaryName,bankName,accountNumber\<newline>Ada,Zenith,0123456789''"
  have h1: "2 \<le> length (csv_lines ?text)"
    by code_simp
  have h2: "\<exists>rh \<in> set requiredHeaders. rh \<notin> set (robustParseCsvRow (hd (csv_lines ?text)))"
    by code_simp
  have ev: "filter (\<lambda>rh. rh \<notin> set (robustParseCsvRow (hd (csv_lines ?text))))
              [''beneficiaryName'', ''bankName'', ''accountNumber'', ''bvn''] = [''bvn'']"
    by code_simp
  from missing_header_rejects_batch [OF h1 h2, of "\<lambda>a w. (Rejects OtherValue, w)" initial_state "()"]
  have "handleBulkUpload (\<lambda>a w. (Rejects OtherValue, w)) ?text (initial_state, ())
      = (showError ''Invalid CSV header. Missing required columns: bvn.'' initial_state, ())"
    unfolding ev by simp
  with h1 h2 show ?thesis by blast
qed

section \<open>Structural row errors\<close>

lemma parseLines_structural:
  assumes "rows \<noteq> []"
    and "missingHeaders (robustParseCsvRow hline) = []"
  shows "parseLines (hline # rows) =
     (let header = robustParseCsvRow hline;
          errs = map (\<lambda>i. rowError i (length header) (length (robustParseCsvRow (rows ! i))))
                   (filter (\<lambda>i. length (robustParseCsvRow (rows ! i)) \<noteq> length header)
                      [0..<length rows]);
          accts = filter (\<lambda>a. \<not> blankAccount a)
                    (map (buildAccount (headerMap header))
                       (filter (\<lambda>row. length row = length header) (map robustParseCsvRow rows)))
      in if errs \<noteq> []
         then Inl (''Could not parse the CSV file due to formatting issues:''
                          @ [LF, LF] @ join [LF] errs)
         else if duplicates_of accts \<noteq> []
         then Inl (''Duplicate entries found in the file. Please remove them and try again. Duplicates: ''
                             @ join ''; '' (map duplicateMessage (duplicates_of accts)) @ ''.'')
         else Inr accts)"
proof -
  have "map (\<lambda>(i, row). rowError i hlen (length row))
          (filter (\<lambda>(i, row). length row \<noteq> hlen) (enumerate 0 (map robustParseCsvRow rows)))
        = map (\<lambda>i. rowError i hlen (length (robustParseCsvRow (rows ! i))))
            (filter (\<lambda>i. length (robustParseCsvRow (rows ! i)) \<noteq> hlen) [0..<length rows])" for hlen
  proof -
    let ?cells = "map robustParseCsvRow rows"
    have f: "filter (\<lambda>i. length (?cells ! i) \<noteq> hlen) [0..<length rows]
           = filter (\<lambda>i. length (robustParseCsvRow (rows ! i)) \<noteq> hlen) [0..<length rows]"
      by (rule filter_cong) auto
    have m: "map (\<lambda>i. rowError i hlen (length (?cells ! i))) is
           = map (\<lambda>i. rowError i hlen (length (robustParseCsvRow (rows ! i)))) is"
      if "set is \<subseteq> {0..<length rows}" for "is"
      using that by (intro map_cong) auto
    show ?thesis
      using enumerate_as_indices [of "\<lambda>i row. rowError i hlen (length row)"
        "\<lambda>row. length row \<noteq> hlen" ?cells]
      by (simp add: f m)
  qed
  with assms show ?thesis
    by (simp add: parseLines_def forEach_line_eq Let_def)
qed


lemma join_Cons: "join sep (x # xs) = x @ (if xs = [] then [] else sep @ join sep xs)"
  by (cases xs) simp_all

lemma rowError_0_4_5:
  "rowError 0 4 5 = ''Row 2: Mismatched column count. Expected 4, but found 5.''"
  by code_simp

text \<open>
  C5. When the header has the four required names and some data row has a cell count that
  differs from the header's, the handler stops with one error: its message has one line
  for each such row, with the row's 1-based number among the non-blank lines (the header
  is row 1, so data row \<open>i\<close>, counted from 0, is row \<open>i + 2\<close>), the header's cell count
  and the row's. The state keeps its bulk results and the world is unchanged: no record is
  verified. A first data row of 5 cells under a header of 4 gives the line
  \<^verbatim>\<open>Row 2: Mismatched column count. Expected 4, but found 5.\<close>
\<close>

theorem structural_error_rejects_batch:
  assumes "csv_lines text = hline # rows"
    and "missingHeaders (robustParseCsvRow hline) = []"
    and "\<exists>r \<in> set rows. length (robustParseCsvRow r) \<noteq> length (robustParseCsvRow hline)"
  shows "handleBulkUpload verify text (st, w) =
           (showError (''Could not parse the CSV file due to formatting issues:'' @ [LF, LF]
              @ join [LF]
                  (map (\<lambda>i. ''Row '' @ string_of_nat (i + 2)
                          @ '': Mismatched column count. Expected ''
                          @ string_of_nat (length (robustParseCsvRow hline))
                          @ '', but found ''
                          @ string_of_nat (length (robustParseCsvRow (rows ! i))) @ ''.'')
                     (filter (\<lambda>i. length (robustParseCsvRow (rows ! i))
                                    \<noteq> length (robustParseCsvRow hline))
                        [0..<length rows]))) st, w)
         \<and> (length (robustParseCsvRow hline) = 4 \<and> length (robustParseCsvRow (hd rows)) = 5 \<longrightarrow>
              (\<exists>more. verificationResult (fst (handleBulkUpload verify text (st, w))) =
                 Some \<lparr> success = False,
                        message = ''Could not parse the CSV file due to formatting issues:''
                          @ [LF, LF] @ ''Row 2: Mismatched column count. Expected 4, but found 5.''
                          @ more,
                        data = None \<rparr>))"
proof -
  let ?hlen = "length (robustParseCsvRow hline)"
  define bad where "bad = filter (\<lambda>i. length (robustParseCsvRow (rows ! i)) \<noteq> ?hlen) [0..<length rows]"
  define errs where "errs = map (\<lambda>i. rowError i ?hlen (length (robustParseCsvRow (rows ! i)))) bad"
  let ?msg = "''Could not parse the CSV file due to formatting issues:'' @ [LF, LF] @ join [LF] errs"
  from assms(3) obtain i where i: "i < length rows" "length (robustParseCsvRow (rows ! i)) \<noteq> ?hlen"
    by (auto simp add: in_set_conv_nth)
  then have "i \<in> set bad"
    by (simp add: bad_def)
  then have "errs \<noteq> []"
    by (auto simp add: errs_def)
  from i have rows: "rows \<noteq> []"
    by auto
  have nonempty: "text \<noteq> []"
    using assms(1) csv_lines_Nil by auto
  have "parseLines (hline # rows) = Inl ?msg"
    using \<open>errs \<noteq> []\<close>
    by (simp add: parseLines_structural [OF rows assms(2)] Let_def errs_def bad_def)
  with nonempty have run: "handleBulkUpload verify text (st, w) = (showError ?msg st, w)"
    by (simp add: handleBulkUpload_def parseUpload_def assms(1))
  have first: "\<exists>more. ?msg = ''Could not parse the CSV file due to formatting issues:''
                          @ [LF, LF] @ ''Row 2: Mismatched column count. Expected 4, but found 5.''
                          @ more"
    if "?hlen = 4" "length (robustParseCsvRow (hd rows)) = 5"
  proof -
    from rows have upt: "[0..<length rows] = 0 # [1..<length rows]"
      by (simp add: upt_conv_Cons)
    from rows that have "bad = 0 # filter (\<lambda>i. length (robustParseCsvRow (rows ! i)) \<noteq> ?hlen) [1..<length rows]"
      unfolding bad_def upt by (simp add: hd_conv_nth)
    then obtain bad' where "bad = 0 # bad'"
      by blast
    with rows that have "errs = rowError 0 4 5
        # map (\<lambda>i. rowError i ?hlen (length (robustParseCsvRow (rows ! i)))) bad'"
      by (simp add: errs_def hd_conv_nth)
    then obtain errs' where "errs = ''Row 2: Mismatched column count. Expected 4, but found 5.'' # errs'"
      by (simp add: rowError_0_4_5)
    then show ?thesis
      by (simp add: join_Cons)
  qed
  have "length (robustParseCsvRow hline) = 4 \<and> length (robustParseCsvRow (hd rows)) = 5 \<longrightarrow>
              (\<exists>more. verificationResult (fst (handleBulkUpload verify text (st, w))) =
                 Some \<lparr> success = False,
                        message = ''Could not parse the CSV file due to formatting issues:''
                          @ [LF, LF] @ ''Row 2: Mismatched column count. Expected 4, but found 5.''
                          @ more,
                        data = None \<rparr>)"
    using first unfolding run by (auto simp add: showError_def)
  moreover have "handleBulkUpload verify text (st, w) =
           (showError (''Could not parse the CSV file due to formatting issues:'' @ [LF, LF]
              @ join [LF]
                  (map (\<lambda>i. ''Row '' @ string_of_nat (i + 2)
                          @ '': Mismatched column count. Expected ''
                          @ string_of_nat (length (robustParseCsvRow hline))
                          @ '', but found ''
                          @ string_of_nat (length (robustParseCsvRow (rows ! i))) @ ''.'')
                     (filter (\<lambda>i. length (robustParseCsvRow (rows ! i))
                                    \<noteq> length (robustParseCsvRow hline))
                        [0..<length rows]))) st, w)"
    unfolding run errs_def bad_def rowError_def by simp
  ultimately show ?thesis
    by blast
qed


theorem structural_error_rejects_batch_witness:
  "csv_lines ''beneficiaryName,bankName,accountNumber,bvn\<newline>Ada,Zenith,0123456789,12345678901,x\<newline>Bob,Access,0123456780,22345678901''
     = [''beneficiaryName,bankName,accountNumber,bvn'', ''Ada,Zenith,0123456789,12345678901,x'',
        ''Bob,Access,0123456780,22345678901'']
   \<and> missingHeaders (robustParseCsvRow ''beneficiaryName,bankName,accountNumber,bvn'') = []
   \<and> length (robustParseCsvRow ''Ada,Zenith,0123456789,12345678901,x'') = 5
   \<and> length (robustParseCsvRow ''beneficiaryName,bankName,accountNumber,bvn'') = 4
   \<and> handleBulkUpload (\<lambda>a w. (Rejects OtherValue, w))
        ''beneficiaryName,bankName,accountNumber,bvn\<newline>Ada,Zenith,0123456789,12345678901,x\<newline>Bob,Access,0123456780,22345678901''
        (initial_state, ())
      = (showError (''Could not parse the CSV file due to formatting issues:'' @ [LF, LF]
           @ ''Row 2: Mismatched column count. Expected 4, but found 5.'') initial_state, ())"
proof -
  let ?hline = "''beneficiaryName,bankName,accountNumber,bvn''"
  let ?rows = "[''Ada,Zenith,0123456789,12345678901,x'', ''Bob,Access,0123456780,22345678901'']"
  let ?text = "''beneficiaryName,bankName,accountNumber,bvn\<newline>Ada,Zenith,0123456789,12345678901,x\<newline>Bob,Access,0123456780,22345678901''"
  have h1: "csv_lines ?text = ?hline # ?rows"
    by code_simp
  have h2: "missingHeaders (robustParseCsvRow ?hline) = []"
    by code_simp
  have l5: "length (robustParseCsvRow ''Ada,Zenith,0123456789,12345678901,x'') = 5"
    by code_simp
  have l4: "length (robustParseCsvRow ?hline) = 4"
    by code_simp
  have h3: "\<exists>r \<in> set ?rows. length (robustParseCsvRow r) \<noteq> length (robustParseCsvRow ?hline)"
    by (simp add: l5 l4)
  have ev: "join [LF]
                  (map (\<lambda>i. ''Row '' @ string_of_nat (i + 2)
                          @ '': Mismatched column count. Expected ''
                          @ string_of_nat (length (robustParseCsvRow ?hline))
                          @ '', but found ''
                          @ string_of_nat (length (robustParseCsvRow (?rows ! i))) @ ''.'')
                     (filter (\<lambda>i. length (robustParseCsvRow (?rows ! i))
                                    \<noteq> length (robustParseCsvRow ?hline))
                        [0..<length ?rows]))
            = ''Row 2: Mismatched column count. Expected 4, but found 5.''"
    by code_simp
  from structural_error_rejects_batch [OF h1 h2 h3, of "\<lambda>a w. (Rejects OtherValue, w)" initial_state "()"]
  have "handleBulkUpload (\<lambda>a w. (Rejects OtherValue, w)) ?text (initial_state, ())
      = (showError (''Could not parse the CSV file due to formatting issues:'' @ [LF, LF]
           @ ''Row 2: Mismatched column count. Expected 4, but found 5.'') initial_state, ())"
    unfolding ev by blast
  with h1 h2 l5 l4 show ?thesis
    by blast
qed

section \<open>Which rows become records\<close>

text \<open>
  C3 (amended). For the data rows whose cell count equals the header's, the parser builds a
  record from the columns that the lookup gives for the four required names (a name
  without a column, or a column outside the row, reads as the empty string), and keeps
  the record unless every one of its four fields is empty after trimming: the accepted
  records are those of the rows of the right cell count that are not blank, in order.
\<close>

theorem nonblank_rows_kept:
  "fst (forEach_line hlen hm lines index (accts, errs)) =
     accts @ filter (\<lambda>account. \<not> blankAccount account)
               (map (buildAccount hm)
                  (filter (\<lambda>row. length row = hlen) (map robustParseCsvRow lines)))
   \<and> beneficiaryName (buildAccount hm row) =
       (case hm ''beneficiaryName'' of None \<Rightarrow> [] | Some i \<Rightarrow> if i < length row then row ! i else [])
   \<and> bankName (buildAccount hm row) =
       (case hm ''bankName'' of None \<Rightarrow> [] | Some i \<Rightarrow> if i < length row then row ! i else [])
   \<and> accountNumber (buildAccount hm row) =
       (case hm ''accountNumber'' of None \<Rightarrow> [] | Some i \<Rightarrow> if i < length row then row ! i else [])
   \<and> bvn (buildAccount hm row) =
       (case hm ''bvn'' of None \<Rightarrow> [] | Some i \<Rightarrow> if i < length row then row ! i else [])"
  by (simp add: forEach_line_eq buildAccount_def split: option.split)

theorem nonblank_rows_kept_witness:
  "fst (forEach_line 4 (headerMap [''beneficiaryName'', ''bankName'', ''accountNumber'', ''bvn''])
          [''Ada,Zenith,0123456789,12345678901'', '',,,'', ''Bob,,,''] 0 ([], []))
     = [\<lparr> beneficiaryName = ''Ada'', bankName = ''Zenith'', accountNumber = ''0123456789'',
           bvn = ''12345678901'' \<rparr>,
        \<lparr> beneficiaryName = ''Bob'', bankName = [], accountNumber = [], bvn = [] \<rparr>]"
proof -
  let ?hm = "headerMap [''beneficiaryName'', ''bankName'', ''accountNumber'', ''bvn'']"
  let ?lines = "[''Ada,Zenith,0123456789,12345678901'', '',,,'', ''Bob,,,'']"
  have ev: "[] @ filter (\<lambda>account. \<not> blankAccount account)
               (map (buildAccount ?hm)
                  (filter (\<lambda>row. length row = 4) (map robustParseCsvRow ?lines)))
     = [\<lparr> beneficiaryName = ''Ada'', bankName = ''Zenith'', accountNumber = ''0123456789'',
           bvn = ''12345678901'' \<rparr>,
        \<lparr> beneficiaryName = ''Bob'', bankName = [], accountNumber = [], bvn = [] \<rparr>]"
    by code_simp
  from nonblank_rows_kept [of 4 ?hm ?lines 0 "[]" "[]"] show ?thesis
    unfolding ev by blast
qed

text \<open>
  C3 as stated fails: a row whose four fields are all non-empty after trimming is kept,
  not dropped.
\<close>

theorem nonempty_record_dropped_counterexample:
  "length (robustParseCsvRow ''Ada,Zenith,0123456789,12345678901'')
     = length (robustParseCsvRow ''beneficiaryName,bankName,accountNumber,bvn'')
   \<and> trim ''Ada'' \<noteq> [] \<and> trim ''Zenith'' \<noteq> [] \<and> trim ''0123456789'' \<noteq> []
   \<and> trim ''12345678901'' \<noteq> []
   \<and> parseUpload ''beneficiaryName,bankName,accountNumber,bvn\<newline>Ada,Zenith,0123456789,12345678901''
       = Inr [\<lparr> beneficiaryName = ''Ada'', bankName = ''Zenith'',
                accountNumber = ''0123456789'', bvn = ''12345678901'' \<rparr>]"
  by code_simp

section \<open>Failures of single verification calls\<close>

lemma verify_loop_acc:
  "verify_loop verify accounts results w =
     (results @ fst (verify_loop verify accounts [] w), snd (verify_loop verify accounts [] w))"
proof (induction accounts arbitrary: results w)
  case Nil
  show ?case by simp
next
  case (Cons a accounts)
  show ?case
    apply (simp split: prod.splits verify_reply.splits)
    apply (intro allI impI conjI)
    using Cons.IH apply (metis append.assoc fst_conv snd_conv)+
    done
qed

lemma verify_loop_append:
  "verify_loop verify (pre @ post) results w =
     verify_loop verify post (fst (verify_loop verify pre results w))
       (snd (verify_loop verify pre results w))"
  by (induction pre arbitrary: results w) (auto split: prod.splits verify_reply.splits)

lemma verify_loop_length:
  "length (fst (verify_loop verify accounts results w)) = length results + length accounts"
  by (induction accounts arbitrary: results w) (auto split: prod.splits verify_reply.splits)

text \<open>
  C9. When the call for one record rejects, the loop goes on: the records before it have
  their outcomes, the record's own position holds a failed outcome with the submitted
  record and the message of the thrown error (a fixed text when the thrown value is not an
  error object), and the records after it are verified in order from the world the failed
  call left. The result has one outcome for each record.
\<close>

theorem verification_failure_is_local:
  assumes "verify_loop verify pre [] w = (rs1, w1)"
    and "verify account w1 = (Rejects err, w2)"
    and "verify_loop verify post [] w2 = (rs2, w3)"
  shows "verify_loop verify (pre @ account # post) [] w =
           (rs1 @ \<lparr> success = False,
                    message = (case err of ErrorObject m \<Rightarrow> m
                               | OtherValue \<Rightarrow> ''An unknown error occurred.''),
                    data = Some account \<rparr> # rs2, w3)
         \<and> length rs1 = length pre \<and> length rs2 = length post
         \<and> (parseUpload text = Inr (pre @ account # post) \<longrightarrow>
              handleBulkUpload verify text (st, w) =
                (st\<lparr> bulkResults := rs1 @ \<lparr> success = False,
                    message = (case err of ErrorObject m \<Rightarrow> m
                               | OtherValue \<Rightarrow> ''An unknown error occurred.''),
                    data = Some account \<rparr> # rs2, isBulkVerifying := False,
                     isBulkModalOpen := True \<rparr>, w3))"
proof -
  let ?failed = "\<lparr> success = False, message = errorMessage err, data = Some account \<rparr>"
  have "verify_loop verify (account # post) rs1 w1 = verify_loop verify post (rs1 @ [?failed]) w2"
    using assms(2) by simp
  also have "\<dots> = ((rs1 @ [?failed]) @ rs2, w3)"
    using verify_loop_acc [of verify post "rs1 @ [?failed]" w2] assms(3) by simp
  finally have step: "verify_loop verify (account # post) rs1 w1 = (rs1 @ ?failed # rs2, w3)"
    by simp
  have run: "verify_loop verify (pre @ account # post) [] w = (rs1 @ ?failed # rs2, w3)"
    using verify_loop_append [of verify pre "account # post" "[]" w] assms(1) step by simp
  have l1: "length rs1 = length pre"
    using verify_loop_length [of verify pre "[]" w] assms(1) by simp
  have l2: "length rs2 = length post"
    using verify_loop_length [of verify post "[]" w2] assms(3) by simp
  have msg: "errorMessage err = (case err of ErrorObject m \<Rightarrow> m
                               | OtherValue \<Rightarrow> ''An unknown error occurred.'')"
    by (simp add: errorMessage_def)
  show ?thesis
    using run l1 l2 unfolding msg by (simp add: handleBulkUpload_def)
qed


theorem verification_failure_is_local_witness:
  "verify_loop
     (\<lambda>a n. (if accountNumber a = [] then Rejects (ErrorObject ''The verification service is currently unavailable. Please try again later.'')
              else Resolves \<lparr> success = True, message = ''Account details verified successfully.'', data = Some a \<rparr>, Suc n))
     ([\<lparr> beneficiaryName = ''Ada'', bankName = ''Zenith'', accountNumber = ''0123456789'', bvn = ''22345678901'' \<rparr>]
       @ \<lparr> beneficiaryName = ''Bob'', bankName = [], accountNumber = [], bvn = [] \<rparr>
       # [\<lparr> beneficiaryName = ''Chi'', bankName = ''Access'', accountNumber = ''0123456780'', bvn = ''22345678902'' \<rparr>])
     [] (0::nat)
   = ([\<lparr> success = True, message = ''Account details verified successfully.'',
         data = Some \<lparr> beneficiaryName = ''Ada'', bankName = ''Zenith'', accountNumber = ''0123456789'', bvn = ''22345678901'' \<rparr> \<rparr>]
       @ \<lparr> success = False, message = ''The verification service is currently unavailable. Please try again later.'',
           data = Some \<lparr> beneficiaryName = ''Bob'', bankName = [], accountNumber = [], bvn = [] \<rparr> \<rparr>
       # [\<lparr> success = True, message = ''Account details verified successfully.'',
         data = Some \<lparr> beneficiaryName = ''Chi'', bankName = ''Access'', accountNumber = ''0123456780'', bvn = ''22345678902'' \<rparr> \<rparr>],
      3)"
proof -
  let ?verify = "\<lambda>a n. (if accountNumber a = [] then Rejects (ErrorObject ''The verification service is currently unavailable. Please try again later.'')
              else Resolves \<lparr> success = True, message = ''Account details verified successfully.'', data = Some a \<rparr>, Suc n)"
  let ?ada = "\<lparr> beneficiaryName = ''Ada'', bankName = ''Zenith'', accountNumber = ''0123456789'', bvn = ''22345678901'' \<rparr>"
  let ?bob = "\<lparr> beneficiaryName = ''Bob'', bankName = [], accountNumber = [], bvn = [] \<rparr>"
  let ?chi = "\<lparr> beneficiaryName = ''Chi'', bankName = ''Access'', accountNumber = ''0123456780'', bvn = ''22345678902'' \<rparr>"
  have h1: "verify_loop ?verify [?ada] [] (0::nat)
      = ([\<lparr> success = True, message = ''Account details verified successfully.'', data = Some ?ada \<rparr>], 1)"
    by simp
  have h2: "?verify ?bob (1::nat)
      = (Rejects (ErrorObject ''The verification service is currently unavailable. Please try again later.''), 2)"
    by simp
  have h3: "verify_loop ?verify [?chi] [] (2::nat)
      = ([\<lparr> success = True, message = ''Account details verified successfully.'', data = Some ?chi \<rparr>], 3)"
    by simp
  from verification_failure_is_local [OF h1 h2 h3] show ?thesis
    by simp
qed

section \<open>Export of all results: the data columns\<close>

lemma formatCsvField_quotes:
  "formatCsvField field =
     (if dquote \<in> set field \<or> comma \<in> set field \<or> LF \<in> set field
      then [dquote] @ concat (map (\<lambda>c. if c = dquote then [dquote, dquote] else [c]) field)
             @ [dquote]
      else field)"
proof -
  let ?clean = "concat (map (\<lambda>c. if c = dquote then [dquote, dquote] else [c]) field)"
  have chars: "set ?clean = set field"
    by (induction field) auto
  have same: "?clean = field" if "dquote \<notin> set field"
    using that by (induction field) auto
  have "(\<exists>c \<in> set ?clean. c = dquote \<or> c = comma \<or> c = LF)
      \<longleftrightarrow> dquote \<in> set field \<or> comma \<in> set field \<or> LF \<in> set field"
    unfolding chars by blast
  then show ?thesis
    using same by (simp add: formatCsvField_def Let_def del: Set.bex_simps bex_disj_distrib)
qed

text \<open>
  C2. In the export of all results only the message goes through \<^verbatim>\<open>formatCsvField\<close>. A
  beneficiary name with a comma is written as it is, so the row of six columns reads back
  as seven cells, whereas the quoting function applied to the name would have wrapped it.
\<close>

theorem allResults_data_fields_unquoted:
  \<open>handleDownloadAllResults
     (initial_state\<lparr> bulkResults :=
        [\<lparr> success = True, message = ''Account details verified successfully.'',
           data = Some \<lparr> beneficiaryName = ''Doe, John Adewale'', bankName = ''Zenith'',
                         accountNumber = ''0123456789'', bvn = ''22345678901'' \<rparr> \<rparr>] \<rparr>)
   = Some (''beneficiaryName,bankName,accountNumber,bvn,status,message'' @ [LF]
           @ ''Doe, John Adewale,Zenith,0123456789,22345678901,Success,Account details verified successfully.'')
   \<and> robustParseCsvRow
        ''Doe, John Adewale,Zenith,0123456789,22345678901,Success,Account details verified successfully.''
     = [''Doe'', ''John Adewale'', ''Zenith'', ''0123456789'', ''22345678901'', ''Success'',
        ''Account details verified successfully.'']
   \<and> formatCsvField ''Doe, John Adewale'' = ''"Doe, John Adewale"''\<close>
  by code_simp

section \<open>Trimming and the header lookup\<close>

lemma trim_Nil [simp]: "trim [] = []"
  by (simp add: trim_def)

lemma trim_ends:
  assumes "trim s \<noteq> []"
  shows "\<not> isWhiteSpace (hd (trim s))" and "\<not> isWhiteSpace (last (trim s))"
proof -
  let ?d = "dropWhile isWhiteSpace s"
  let ?e = "dropWhile isWhiteSpace (rev ?d)"
  from assms have e: "?e \<noteq> []"
    by (simp add: trim_def)
  then have "\<not> isWhiteSpace (hd ?e)"
    by (rule hd_dropWhile)
  with e show "\<not> isWhiteSpace (last (trim s))"
    by (simp add: trim_def last_rev)
  have d: "?d \<noteq> []"
  proof
    assume "?d = []"
    then have "?e = []"
      by (simp only: rev.simps dropWhile.simps)
    with e show False by contradiction
  qed
  then have hd_d: "\<not> isWhiteSpace (hd ?d)"
    by (rule hd_dropWhile)
  have "rev ?d = takeWhile isWhiteSpace (rev ?d) @ ?e"
    by simp
  then have "?d = rev ?e @ rev (takeWhile isWhiteSpace (rev ?d))"
    by (metis rev_append rev_rev_ident)
  with e have "hd ?d = hd (rev ?e)"
    by (metis hd_append2 rev_is_Nil_conv)
  with hd_d show "\<not> isWhiteSpace (hd (trim s))"
    by (simp add: trim_def)
qed

lemma trim_fixed:
  assumes "s = [] \<or> (\<not> isWhiteSpace (hd s) \<and> \<not> isWhiteSpace (last s))"
  shows "trim s = s"
proof (cases "s = []")
  case True
  then show ?thesis by simp
next
  case False
  with assms have h: "\<not> isWhiteSpace (hd s)" and l: "\<not> isWhiteSpace (last s)"
    by auto
  from False h have "dropWhile isWhiteSpace s = s"
    by (cases s) auto
  moreover from False l have "dropWhile isWhiteSpace (rev s) = rev s"
    by (cases "rev s") (auto simp add: last_rev)
  ultimately show ?thesis
    by (simp add: trim_def)
qed

lemma trim_trim [simp]: "trim (trim s) = trim s"
  using trim_ends [of s] by (intro trim_fixed) blast

lemma robustParseCsvRow_loop_trimmed:
  "\<forall>v \<in> set vs. trim v = v \<Longrightarrow>
   \<forall>v \<in> set (robustParseCsvRow_loop row vs cur inq). trim v = v"
proof (induction row vs cur inq rule: robustParseCsvRow_loop.induct)
  case (1 vs cur inq)
  then show ?case by simp
next
  case (2 c rest vs cur inq)
  from "2.prems" have ext: "\<forall>v \<in> set (vs @ [trim cur]). trim v = v"
    by simp
  consider (escaped) "c = dquote" "inq \<and> rest \<noteq> [] \<and> hd rest = dquote"
    | (toggle) "c = dquote" "\<not> (inq \<and> rest \<noteq> [] \<and> hd rest = dquote)"
    | (separator) "c \<noteq> dquote" "c = comma \<and> \<not> inq"
    | (other) "c \<noteq> dquote" "\<not> (c = comma \<and> \<not> inq)"
    by blast
  then show ?case
  proof cases
    case escaped
    then have "robustParseCsvRow_loop (c # rest) vs cur inq
        = robustParseCsvRow_loop (tl rest) vs (cur @ [dquote]) inq"
      by (subst robustParseCsvRow_loop.simps(2)) (auto simp del: robustParseCsvRow_loop.simps)
    with "2.IH"(1) [OF escaped "2.prems"] show ?thesis
      by (simp only:)
  next
    case toggle
    then have "robustParseCsvRow_loop (c # rest) vs cur inq
        = robustParseCsvRow_loop rest vs cur (\<not> inq)"
      by (subst robustParseCsvRow_loop.simps(2)) (auto simp del: robustParseCsvRow_loop.simps)
    with "2.IH"(2) [OF toggle "2.prems"] show ?thesis
      by (simp only:)
  next
    case separator
    then have "robustParseCsvRow_loop (c # rest) vs cur inq
        = robustParseCsvRow_loop rest (vs @ [trim cur]) [] inq"
      by (subst robustParseCsvRow_loop.simps(2)) (auto simp del: robustParseCsvRow_loop.simps)
    with "2.IH"(3) [OF separator ext] show ?thesis
      by (simp only:)
  next
    case other
    then have "robustParseCsvRow_loop (c # rest) vs cur inq
        = robustParseCsvRow_loop rest vs (cur @ [c]) inq"
      by (subst robustParseCsvRow_loop.simps(2)) (auto simp del: robustParseCsvRow_loop.simps)
    with "2.IH"(4) [OF other "2.prems"] show ?thesis
      by (simp only:)
  qed
qed

lemma robustParseCsvRow_trimmed: "c \<in> set (robustParseCsvRow row) \<Longrightarrow> trim c = c"
  using robustParseCsvRow_loop_trimmed [of "[]" row "[]" False]
  by (simp add: robustParseCsvRow_def)

lemma headerMap_snoc: "headerMap (header @ [col]) = (headerMap header)(trim col \<mapsto> length header)"
  by (simp add: headerMap_def enumerate_append_eq)

lemma headerMap_Nil: "headerMap [] = Map.empty"
  by (simp add: headerMap_def)

lemma headerMap_rightmost:
  "headerMap header name = Some i \<longleftrightarrow>
     i < length header \<and> trim (header ! i) = name \<and>
     (\<forall>j. i < j \<and> j < length header \<longrightarrow> trim (header ! j) \<noteq> name)"
proof (induction header arbitrary: i rule: rev_induct)
  case Nil
  show ?case by (simp add: headerMap_Nil)
next
  case (snoc col header)
  let ?n = "length header"
  have at_end: "(header @ [col]) ! ?n = col"
    by simp
  have before: "(header @ [col]) ! j = header ! j" if "j < ?n" for j
    using that by (simp add: nth_append)
  have len: "length (header @ [col]) = Suc ?n"
    by simp
  show ?case
  proof (cases "trim col = name")
    case True
    then have map: "headerMap (header @ [col]) name = Some ?n"
      by (simp add: headerMap_snoc)
    show ?thesis
    proof
      assume "headerMap (header @ [col]) name = Some i"
      with map have "i = ?n" by simp
      with True at_end show "i < length (header @ [col]) \<and> trim ((header @ [col]) ! i) = name \<and>
          (\<forall>j. i < j \<and> j < length (header @ [col]) \<longrightarrow> trim ((header @ [col]) ! j) \<noteq> name)"
        unfolding len by auto
    next
      assume r: "i < length (header @ [col]) \<and> trim ((header @ [col]) ! i) = name \<and>
          (\<forall>j. i < j \<and> j < length (header @ [col]) \<longrightarrow> trim ((header @ [col]) ! j) \<noteq> name)"
      have "\<not> i < ?n"
      proof
        assume "i < ?n"
        with r have "trim ((header @ [col]) ! ?n) \<noteq> name"
          unfolding len by blast
        with True at_end show False by simp
      qed
      with r have "i = ?n"
        unfolding len by linarith
      with map show "headerMap (header @ [col]) name = Some i"
        by simp
    qed
  next
    case False
    then have map: "headerMap (header @ [col]) name = headerMap header name"
      by (simp add: headerMap_snoc)
    show ?thesis
    proof
      assume "headerMap (header @ [col]) name = Some i"
      then have "headerMap header name = Some i"
        unfolding map .
      then have i: "i < ?n" "trim (header ! i) = name"
        "\<forall>j. i < j \<and> j < ?n \<longrightarrow> trim (header ! j) \<noteq> name"
        using snoc.IH [of i] by blast+
      have "trim ((header @ [col]) ! j) \<noteq> name" if "i < j" "j < Suc ?n" for j
      proof (cases "j < ?n")
        case True
        with that i(3) before show ?thesis by simp
      next
        case False
        with that have "j = ?n" by linarith
        with \<open>trim col \<noteq> name\<close> at_end show ?thesis by simp
      qed
      with i(1,2) before [of i] show "i < length (header @ [col]) \<and> trim ((header @ [col]) ! i) = name \<and>
          (\<forall>j. i < j \<and> j < length (header @ [col]) \<longrightarrow> trim ((header @ [col]) ! j) \<noteq> name)"
        unfolding len by simp
    next
      assume r: "i < length (header @ [col]) \<and> trim ((header @ [col]) ! i) = name \<and>
          (\<forall>j. i < j \<and> j < length (header @ [col]) \<longrightarrow> trim ((header @ [col]) ! j) \<noteq> name)"
      have "i \<noteq> ?n"
        using r False at_end by auto
      with r have lt: "i < ?n"
        unfolding len by linarith
      have later: "trim (header ! j) \<noteq> name" if "i < j" "j < ?n" for j
      proof -
        from that r have "trim ((header @ [col]) ! j) \<noteq> name"
          unfolding len by simp
        with that before show ?thesis by simp
      qed
      from r lt before [of i] have "trim (header ! i) = name"
        by simp
      with lt later have "headerMap header name = Some i"
        using snoc.IH [of i] by blast
      with map show "headerMap (header @ [col]) name = Some i"
        by simp
    qed
  qed
qed

lemma rightmost_exists:
  "x \<in> set xs \<Longrightarrow> \<exists>i < length xs. xs ! i = x \<and> (\<forall>j. i < j \<and> j < length xs \<longrightarrow> xs ! j \<noteq> x)"
proof (induction xs rule: rev_induct)
  case Nil
  then show ?case by simp
next
  case (snoc y xs)
  show ?case
  proof (cases "y = x")
    case True
    then have "length xs < length (xs @ [y]) \<and> (xs @ [y]) ! length xs = x
        \<and> (\<forall>j. length xs < j \<and> j < length (xs @ [y]) \<longrightarrow> (xs @ [y]) ! j \<noteq> x)"
      by auto
    then show ?thesis
      by blast
  next
    case False
    with snoc obtain i where i: "i < length xs" "xs ! i = x" "\<forall>j. i < j \<and> j < length xs \<longrightarrow> xs ! j \<noteq> x"
      by auto
    with False have "i < length (xs @ [y]) \<and> (xs @ [y]) ! i = x \<and>
         (\<forall>j. i < j \<and> j < length (xs @ [y]) \<longrightarrow> (xs @ [y]) ! j \<noteq> x)"
      by (auto simp add: nth_append less_Suc_eq)
    then show ?thesis
      by blast
  qed
qed

text \<open>
  C10. When a required name occurs in the tokenized header, the lookup built from the
  header maps it to its rightmost column: no later column has the name. For a row of the header's
  cell count, the field of the record that belongs to a required name is the cell of that
  rightmost column.
\<close>

theorem duplicate_header_rightmost_wins:
  assumes "header = robustParseCsvRow hline"
    and "name \<in> set header"
    and "name \<in> set requiredHeaders"
  shows "\<exists>i < length header.
           header ! i = name
         \<and> (\<forall>j. i < j \<and> j < length header \<longrightarrow> header ! j \<noteq> name)
         \<and> headerMap header name = Some i
         \<and> (\<forall>row. length row = length header \<longrightarrow>
               (name = ''beneficiaryName'' \<longrightarrow> beneficiaryName (buildAccount (headerMap header) row) = row ! i)
             \<and> (name = ''bankName'' \<longrightarrow> bankName (buildAccount (headerMap header) row) = row ! i)
             \<and> (name = ''accountNumber'' \<longrightarrow> accountNumber (buildAccount (headerMap header) row) = row ! i)
             \<and> (name = ''bvn'' \<longrightarrow> bvn (buildAccount (headerMap header) row) = row ! i))"
proof -
  from rightmost_exists [OF assms(2)]
  obtain i where i: "i < length header" "header ! i = name"
      "\<forall>j. i < j \<and> j < length header \<longrightarrow> header ! j \<noteq> name"
    by blast
  have trimmed: "trim (header ! j) = header ! j" if "j < length header" for j
  proof -
    from that have "header ! j \<in> set header"
      by (rule nth_mem)
    then show ?thesis
      unfolding assms(1) by (rule robustParseCsvRow_trimmed)
  qed
  have hm: "headerMap header name = Some i"
  proof -
    have "trim (header ! i) = name"
      using trimmed [OF i(1)] i(2) by simp
    moreover have "trim (header ! j) \<noteq> name" if "i < j \<and> j < length header" for j
    proof -
      from that have "trim (header ! j) = header ! j"
        using trimmed by blast
      moreover from that i(3) have "header ! j \<noteq> name"
        by blast
      ultimately show ?thesis by simp
    qed
    ultimately show ?thesis
      using i(1) headerMap_rightmost [of header name i] by blast
  qed
  have f1: "beneficiaryName (buildAccount (headerMap header) row) = row ! i"
    if "length row = length header" "name = ''beneficiaryName''" for row
    using hm i(1) unfolding that(2) by (simp add: buildAccount_def that(1))
  have f2: "bankName (buildAccount (headerMap header) row) = row ! i"
    if "length row = length header" "name = ''bankName''" for row
    using hm i(1) unfolding that(2) by (simp add: buildAccount_def that(1))
  have f3: "accountNumber (buildAccount (headerMap header) row) = row ! i"
    if "length row = length header" "name = ''accountNumber''" for row
    using hm i(1) unfolding that(2) by (simp add: buildAccount_def that(1))
  have f4: "bvn (buildAccount (headerMap header) row) = row ! i"
    if "length row = length header" "name = ''bvn''" for row
    using hm i(1) unfolding that(2) by (simp add: buildAccount_def that(1))
  show ?thesis
  proof (intro exI [of _ i] conjI allI impI)
    show "i < length header" by (rule i(1))
    show "header ! i = name" by (rule i(2))
    show "headerMap header name = Some i" by (rule hm)
  next
    fix j assume "i < j \<and> j < length header"
    with i(3) show "header ! j \<noteq> name" by blast
  qed (rule f1 f2 f3 f4; assumption)+
qed



theorem duplicate_header_rightmost_wins_witness:
  "''bankName'' \<in> set requiredHeaders
   \<and> ''bankName'' \<in> set (robustParseCsvRow ''bankName,beneficiaryName,bankName,accountNumber,bvn'')
   \<and> headerMap (robustParseCsvRow ''bankName,beneficiaryName,bankName,accountNumber,bvn'') ''bankName''
       = Some 2
   \<and> bankName (buildAccount
         (headerMap (robustParseCsvRow ''bankName,beneficiaryName,bankName,accountNumber,bvn''))
         [''First'', ''Ada'', ''Zenith'', ''0123456789'', ''22345678901''])
       = ''Zenith''"
proof -
  define header where "header = robustParseCsvRow ''bankName,beneficiaryName,bankName,accountNumber,bvn''"
  define row where "row = [''First'', ''Ada'', ''Zenith'', ''0123456789'', ''22345678901'']"
  have mem: "''bankName'' \<in> set header"
    unfolding header_def by code_simp
  have req: "''bankName'' \<in> set requiredHeaders"
    by (simp add: requiredHeaders_def)
  have ev: "headerMap header ''bankName'' = Some 2"
    unfolding header_def by code_simp
  have len: "length row = length header"
    unfolding header_def row_def by code_simp
  from duplicate_header_rightmost_wins [OF header_def mem req]
  obtain i where a: "headerMap header ''bankName'' = Some i"
    and b: "\<forall>row. length row = length header \<longrightarrow>
               (''bankName'' = ''beneficiaryName'' \<longrightarrow> beneficiaryName (buildAccount (headerMap header) row) = row ! i)
             \<and> (''bankName'' = ''bankName'' \<longrightarrow> bankName (buildAccount (headerMap header) row) = row ! i)
             \<and> (''bankName'' = ''accountNumber'' \<longrightarrow> accountNumber (buildAccount (headerMap header) row) = row ! i)
             \<and> (''bankName'' = ''bvn'' \<longrightarrow> bvn (buildAccount (headerMap header) row) = row ! i)"
    by (elim exE conjE)
  from a ev have "i = 2"
    by simp
  moreover from b len have "bankName (buildAccount (headerMap header) row) = row ! i"
    by simp
  ultimately have "bankName (buildAccount (headerMap header) row) = ''Zenith''"
    by (simp add: row_def)
  with mem req ev show ?thesis
    unfolding header_def row_def by simp
qed

section \<open>Tokenizing and rejoining a row without quotes\<close>

lemma comma_not_space: "\<not> isWhiteSpace comma"
  by (simp add: isWhiteSpace_def)

lemma split_loop_not_Nil: "split_loop sep cur s \<noteq> []"
  by (induction s arbitrary: cur) auto

lemma join_split_loop: "join [sep] (split_loop sep cur s) = cur @ s"
proof (induction s arbitrary: cur)
  case Nil
  show ?case by simp
next
  case (Cons c s)
  show ?case
  proof (cases "c = sep")
    case True
    then show ?thesis
      using Cons.IH [of "[]"] split_loop_not_Nil [of sep "[]" s]
      by (simp add: join_Cons)
  next
    case False
    then show ?thesis
      using Cons.IH [of "cur @ [c]"] by simp
  qed
qed

lemma loop_unquoted:
  "dquote \<notin> set row \<Longrightarrow>
   robustParseCsvRow_loop row vs cur False = vs @ map trim (split_loop comma cur row)"
proof (induction row arbitrary: vs cur)
  case Nil
  show ?case by simp
next
  case (Cons c rest)
  then have c: "c \<noteq> dquote" and rest: "dquote \<notin> set rest"
    by auto
  show ?case
  proof (cases "c = comma")
    case True
    have "robustParseCsvRow_loop (c # rest) vs cur False
        = robustParseCsvRow_loop rest (vs @ [trim cur]) [] False"
      using True by (subst robustParseCsvRow_loop.simps(2)) (simp del: robustParseCsvRow_loop.simps)
    with True Cons.IH [OF rest] show ?thesis
      by simp
  next
    case False
    have "robustParseCsvRow_loop (c # rest) vs cur False
        = robustParseCsvRow_loop rest vs (cur @ [c]) False"
      using False c by (subst robustParseCsvRow_loop.simps(2)) (simp del: robustParseCsvRow_loop.simps)
    with False Cons.IH [OF rest] show ?thesis
      by simp
  qed
qed

lemma dropWhile_fixed: "s = [] \<or> \<not> P (hd s) \<Longrightarrow> dropWhile P s = s"
  by (cases s) auto

lemma trim_append_comma:
  assumes a: "a = [] \<or> \<not> isWhiteSpace (last a)"
    and s: "s = [] \<or> \<not> isWhiteSpace (hd s)"
  shows "trim (a @ comma # s) = trim a @ comma # trim s"
proof -
  let ?P = isWhiteSpace
  let ?a' = "dropWhile ?P a"
  have lead: "dropWhile ?P (a @ comma # s) = ?a' @ comma # s"
  proof (cases "a = []")
    case True
    then show ?thesis by (simp add: comma_not_space)
  next
    case False
    with a have "last a \<in> set a" "\<not> ?P (last a)"
      by auto
    then show ?thesis
      by (rule dropWhile_append1)
  qed
  have a': "?a' = [] \<or> \<not> ?P (last ?a')"
  proof (cases "a = []")
    case True
    then show ?thesis by simp
  next
    case False
    with a have l: "\<not> ?P (last a)"
      by simp
    with False have "?a' \<noteq> []"
      by (metis dropWhile_eq_Nil_conv last_in_set)
    moreover have "a = takeWhile ?P a @ ?a'"
      by simp
    ultimately have "last a = last ?a'"
      by (metis last_appendR)
    with l show ?thesis by simp
  qed
  have trail: "dropWhile ?P (rev s @ comma # rev ?a') = dropWhile ?P (rev s) @ comma # rev ?a'"
    by (simp add: dropWhile_append comma_not_space)
  have "trim (a @ comma # s) = rev (dropWhile ?P (rev (?a' @ comma # s)))"
    by (simp only: trim_def lead)
  also have "\<dots> = rev (dropWhile ?P (rev s) @ comma # rev ?a')"
    using trail by simp
  also have "\<dots> = ?a' @ comma # rev (dropWhile ?P (rev s))"
    by simp
  finally have whole: "trim (a @ comma # s) = ?a' @ comma # rev (dropWhile ?P (rev s))" .
  have "dropWhile ?P (rev ?a') = rev ?a'"
    using a' by (intro dropWhile_fixed) (auto simp add: hd_rev)
  then have ta: "trim a = ?a'"
    by (simp add: trim_def)
  have "dropWhile ?P s = s"
    using s by (rule dropWhile_fixed)
  then have ts: "trim s = rev (dropWhile ?P (rev s))"
    by (simp add: trim_def)
  show ?thesis
    unfolding whole ta ts ..
qed

lemma no_space_at_comma_append:
  "no_space_at_comma (a @ b) \<Longrightarrow> no_space_at_comma a \<and> no_space_at_comma b"
proof (induction a rule: no_space_at_comma.induct)
  case 1
  then show ?case by simp
next
  case (2 x)
  then show ?case by (cases b) simp_all
next
  case (3 x y s)
  then show ?case by simp
qed

lemma no_space_before_comma:
  "no_space_at_comma (a @ comma # s) \<Longrightarrow> a = [] \<or> \<not> isWhiteSpace (last a)"
proof (induction a rule: no_space_at_comma.induct)
  case 1
  then show ?case by simp
next
  case (2 x)
  then show ?case by simp
next
  case (3 x y s')
  then show ?case by simp
qed

lemma no_space_after_comma:
  "no_space_at_comma (comma # s) \<Longrightarrow> s = [] \<or> \<not> isWhiteSpace (hd s)"
  by (cases s) simp_all


lemma join_trim_split_loop:
  "no_space_at_comma (cur @ row) \<Longrightarrow>
   join [comma] (map trim (split_loop comma cur row)) = trim (cur @ row)"
proof (induction row arbitrary: cur)
  case Nil
  show ?case by simp
next
  case (Cons c rest)
  show ?case
  proof (cases "c = comma")
    case True
    with Cons.prems have whole: "no_space_at_comma (cur @ comma # rest)"
      by simp
    then have "no_space_at_comma (comma # rest)"
      using no_space_at_comma_append [of cur "comma # rest"] by simp
    then have after: "rest = [] \<or> \<not> isWhiteSpace (hd rest)"
      by (rule no_space_after_comma)
    from whole have before: "cur = [] \<or> \<not> isWhiteSpace (last cur)"
      by (rule no_space_before_comma)
    from whole have "no_space_at_comma ([] @ rest)"
      using no_space_at_comma_append [of "cur @ [comma]" rest] by simp
    then have ih: "join [comma] (map trim (split_loop comma [] rest)) = trim rest"
      using Cons.IH [of "[]"] by simp
    have "join [comma] (map trim (split_loop comma cur (c # rest)))
        = trim cur @ comma # join [comma] (map trim (split_loop comma [] rest))"
      using True split_loop_not_Nil [of comma "[]" rest] by (simp add: join_Cons)
    also have "\<dots> = trim cur @ comma # trim rest"
      by (simp only: ih)
    also have "\<dots> = trim (cur @ comma # rest)"
      using trim_append_comma [OF before after] by simp
    finally show ?thesis
      using True by simp
  next
    case False
    then show ?thesis
      using Cons.IH [of "cur @ [c]"] Cons.prems by simp
  qed
qed

text \<open>
  C8 (amended). For a row without double quotes, tokenizing and rejoining with commas gives
  the row with each comma-separated cell trimmed. When in addition no white space stands
  directly before or after a comma, this is the trimmed row.
\<close>

theorem tokenize_rejoin_unquoted:
  assumes "dquote \<notin> set row"
  shows "join '','' (robustParseCsvRow row) = join '','' (map trim (split comma row))
       \<and> (no_space_at_comma row \<longrightarrow> join '','' (robustParseCsvRow row) = trim row)"
proof -
  have tokens: "robustParseCsvRow row = map trim (split comma row)"
    using loop_unquoted [OF assms, of "[]" "[]"] by (simp add: robustParseCsvRow_def split_def)
  have "join '','' (map trim (split comma row)) = trim row" if "no_space_at_comma row"
    using join_trim_split_loop [of "[]" row] that by (simp add: split_def)
  with tokens show ?thesis
    by simp
qed

theorem tokenize_rejoin_unquoted_witness:
  "dquote \<notin> set '' Ada,Zenith Bank,0123456789 '' \<and> no_space_at_comma '' Ada,Zenith Bank,0123456789 ''
   \<and> join '','' (robustParseCsvRow '' Ada,Zenith Bank,0123456789 '') = ''Ada,Zenith Bank,0123456789''
   \<and> trim '' Ada,Zenith Bank,0123456789 '' = ''Ada,Zenith Bank,0123456789''"
proof -
  let ?row = "'' Ada,Zenith Bank,0123456789 ''"
  have h1: "dquote \<notin> set ?row"
    by simp
  have h2: "no_space_at_comma ?row"
    by code_simp
  have ev: "trim ?row = ''Ada,Zenith Bank,0123456789''"
    by code_simp
  from tokenize_rejoin_unquoted [OF h1] h2
  have "join '','' (robustParseCsvRow ?row) = trim ?row"
    by blast
  with h1 h2 ev show ?thesis
    by simp
qed

text \<open>
  C8 as stated fails: with a space on each side of a comma the rejoined cells differ from
  the trimmed row.
\<close>

theorem tokenize_rejoin_counterexample:
  "dquote \<notin> set ''a , b'' \<and> join '','' (robustParseCsvRow ''a , b'') = ''a,b''
   \<and> trim ''a , b'' = ''a , b''
   \<and> join '','' (robustParseCsvRow ''a , b'') \<noteq> trim ''a , b''"
  by code_simp

section \<open>Rows with empty cells only\<close>

lemma cell_in_row: "cell row idx = [] \<or> cell row idx \<in> set row"
  by (cases idx) auto

lemma blank_row_blank_account:
  assumes "\<forall>c \<in> set row. trim c = []"
  shows "blankAccount (buildAccount hm row)"
proof -
  have "trim (cell row idx) = []" for idx
    using cell_in_row [of row idx] assms by auto
  then show ?thesis
    by (simp add: blankAccount_def buildAccount_def)
qed

lemma parseLines_rows:
  assumes "rows \<noteq> []"
  shows "parseLines (hline # rows) =
     (let header = robustParseCsvRow hline in
      if missingHeaders header \<noteq> []
        then Inl (''Invalid CSV header. Missing required columns: ''
                       @ join '', '' (missingHeaders header) @ ''.'')
      else
        (let st = forEach_line (length header) (headerMap header) rows 0 ([], []) in
         if snd st \<noteq> []
           then Inl (''Could not parse the CSV file due to formatting issues:''
                          @ [LF, LF] @ join [LF] (snd st))
         else if duplicates_of (fst st) \<noteq> []
           then Inl (''Duplicate entries found in the file. Please remove them and try again. Duplicates: ''
                             @ join ''; '' (map duplicateMessage (duplicates_of (fst st))) @ ''.'')
         else Inr (fst st)))"
  using assms by (simp add: parseLines_def Let_def split: prod.split)

text \<open>
  C4 (amended). A data row that has the header's cell count and only empty cells gives no
  record and no error line: the accepted records are those of the batch without the row,
  and the error lines are those of the rows before it followed by those of the rows after
  it, which are numbered with the row counted. When another data row remains and no row
  after it has a wrong cell count, the outcome of parsing is the outcome without the row.
\<close>

theorem blank_row_omitted:
  assumes "length (robustParseCsvRow r) = length (robustParseCsvRow hline)"
    and "\<forall>c \<in> set (robustParseCsvRow r). trim c = []"
  shows "fst (forEach_line (length (robustParseCsvRow hline)) (headerMap (robustParseCsvRow hline))
                (pre @ r # post) 0 ([], []))
           = fst (forEach_line (length (robustParseCsvRow hline)) (headerMap (robustParseCsvRow hline))
                (pre @ post) 0 ([], []))
       \<and> snd (forEach_line (length (robustParseCsvRow hline)) (headerMap (robustParseCsvRow hline))
                (pre @ r # post) 0 ([], []))
           = snd (forEach_line (length (robustParseCsvRow hline)) (headerMap (robustParseCsvRow hline))
                pre 0 ([], []))
             @ snd (forEach_line (length (robustParseCsvRow hline)) (headerMap (robustParseCsvRow hline))
                post (Suc (length pre)) ([], []))
       \<and> (pre @ post \<noteq> [] \<and>
            (\<forall>l \<in> set post. length (robustParseCsvRow l) = length (robustParseCsvRow hline)) \<longrightarrow>
            parseLines (hline # pre @ r # post) = parseLines (hline # pre @ post))"
proof -
  let ?hlen = "length (robustParseCsvRow hline)"
  let ?hm = "headerMap (robustParseCsvRow hline)"
  let ?run = "\<lambda>lines index. forEach_line ?hlen ?hm lines index ([], [])"
  have blank: "blankAccount (buildAccount ?hm (robustParseCsvRow r))"
    using assms(2) by (rule blank_row_blank_account)
  have accts: "fst (?run (pre @ r # post) 0) = fst (?run (pre @ post) 0)"
    using assms(1) blank by (simp add: forEach_line_eq)
  have errs: "snd (?run (pre @ r # post) 0) = snd (?run pre 0) @ snd (?run post (Suc (length pre)))"
    using assms(1) by (simp add: forEach_line_eq enumerate_append_eq)
  have errs0: "snd (?run (pre @ post) 0) = snd (?run pre 0) @ snd (?run post (length pre))"
    by (simp add: forEach_line_eq enumerate_append_eq)
  have same: "parseLines (hline # pre @ r # post) = parseLines (hline # pre @ post)"
    if "pre @ post \<noteq> []"
      and ok: "\<forall>l \<in> set post. length (robustParseCsvRow l) = ?hlen"
  proof -
    have none: "snd (?run post k) = []" for k
      using ok by (auto simp add: forEach_line_eq filter_empty_conv in_set_enumerate_eq)
    have "snd (?run (pre @ r # post) 0) = snd (?run (pre @ post) 0)"
      unfolding errs errs0 none ..
    with accts have "?run (pre @ r # post) 0 = ?run (pre @ post) 0"
      by (simp add: prod_eq_iff)
    then show ?thesis
      using parseLines_rows [of "pre @ r # post" hline] parseLines_rows [OF that(1), of hline]
      by (simp add: Let_def)
  qed
  from accts errs same show ?thesis
    by blast
qed


theorem blank_row_omitted_witness:
  "length (robustParseCsvRow '',,,'') = length (robustParseCsvRow ''beneficiaryName,bankName,accountNumber,bvn'')
   \<and> robustParseCsvRow '',,,'' = [[], [], [], []]
   \<and> parseLines (''beneficiaryName,bankName,accountNumber,bvn''
         # [''Ada,Zenith,0123456789,12345678901''] @ '',,,'' # [''Bob,Access,0123456780,22345678901''])
     = Inr [\<lparr> beneficiaryName = ''Ada'', bankName = ''Zenith'', accountNumber = ''0123456789'',
              bvn = ''12345678901'' \<rparr>,
            \<lparr> beneficiaryName = ''Bob'', bankName = ''Access'', accountNumber = ''0123456780'',
              bvn = ''22345678901'' \<rparr>]"
proof -
  define hline where "hline = ''beneficiaryName,bankName,accountNumber,bvn''"
  define pre where "pre = [''Ada,Zenith,0123456789,12345678901'']"
  define post where "post = [''Bob,Access,0123456780,22345678901'']"
  have cells: "robustParseCsvRow '',,,'' = [[], [], [], []]"
    by code_simp
  have h1: "length (robustParseCsvRow '',,,'') = length (robustParseCsvRow hline)"
    unfolding hline_def by code_simp
  have h2: "\<forall>c \<in> set (robustParseCsvRow '',,,''). trim c = []"
    unfolding cells by simp
  have h3: "pre @ post \<noteq> []"
    by (simp add: pre_def)
  have h4: "\<forall>l \<in> set post. length (robustParseCsvRow l) = length (robustParseCsvRow hline)"
    unfolding post_def hline_def by code_simp
  have ev: "parseLines (hline # pre @ post)
     = Inr [\<lparr> beneficiaryName = ''Ada'', bankName = ''Zenith'', accountNumber = ''0123456789'',
              bvn = ''12345678901'' \<rparr>,
            \<lparr> beneficiaryName = ''Bob'', bankName = ''Access'', accountNumber = ''0123456780'',
              bvn = ''22345678901'' \<rparr>]"
    unfolding hline_def pre_def post_def by code_simp
  from blank_row_omitted [OF h1 h2, of pre post] h3 h4
  have "parseLines (hline # pre @ '',,,'' # post) = parseLines (hline # pre @ post)"
    by blast
  with ev cells h1 show ?thesis
    unfolding hline_def pre_def post_def by simp
qed

text \<open>
  C4 as stated fails: the row still counts as a line. A malformed row after it is reported
  as row 3, not row 2, and a file with the header and this row alone is not an empty file.
\<close>

theorem blank_row_as_if_absent_counterexample:
  "length (robustParseCsvRow '',,,'') = length (robustParseCsvRow ''beneficiaryName,bankName,accountNumber,bvn'')
   \<and> robustParseCsvRow '',,,'' = [[], [], [], []]
   \<and> parseUpload ''beneficiaryName,bankName,accountNumber,bvn\<newline>,,,\<newline>Bob,Access''
       = Inl (''Could not parse the CSV file due to formatting issues:'' @ [LF, LF]
              @ ''Row 3: Mismatched column count. Expected 4, but found 2.'')
   \<and> parseUpload ''beneficiaryName,bankName,accountNumber,bvn\<newline>Bob,Access''
       = Inl (''Could not parse the CSV file due to formatting issues:'' @ [LF, LF]
              @ ''Row 2: Mismatched column count. Expected 4, but found 2.'')
   \<and> parseUpload ''beneficiaryName,bankName,accountNumber,bvn\<newline>,,,\<newline>Bob,Access''
       \<noteq> parseUpload ''beneficiaryName,bankName,accountNumber,bvn\<newline>Bob,Access''
   \<and> parseUpload ''beneficiaryName,bankName,accountNumber,bvn\<newline>,,,'' = Inr []
   \<and> parseUpload ''beneficiaryName,bankName,accountNumber,bvn''
       = Inl ''CSV file is empty or contains only a header.''"
  by code_simp

section \<open>The duplicate check\<close>

lemma lowerChar_hyphen: "lowerChar hyphen = hyphen"
  by (simp add: isUpper_def)

lemma duplicateKey_pairKey:
  "duplicateKey a = fst (pairKey a) @ ''-'' @ snd (pairKey a)"
  by (simp add: duplicateKey_def pairKey_def toLowerCase_def lowerChar_hyphen del: lowerChar.simps)

lemma duplicateKey_hyphen_iff: "duplicateKey a = ''-'' \<longleftrightarrow> pairKey a = ([], [])"
  by (cases "pairKey a") (auto simp add: duplicateKey_pairKey append_eq_Cons_conv)

lemma map_of_map_set: "map_of (map_set k v m) = (map_of m)(k \<mapsto> v)"
  by (induction m) auto

lemma keys_map_set: "set (map fst (map_set k v m)) = insert k (set (map fst m))"
proof (induction m)
  case Nil
  show ?case by simp
next
  case (Cons p m)
  obtain k' v' where p: "p = (k', v')"
    by (cases p)
  show ?case
    unfolding p using Cons.IH by (cases "k' = k") auto
qed

lemma distinct_map_set: "distinct (map fst m) \<Longrightarrow> distinct (map fst (map_set k v m))"
proof (induction m)
  case Nil
  show ?case by simp
next
  case (Cons p m)
  obtain k' v' where p: "p = (k', v')"
    by (cases p)
  from Cons.prems have d: "distinct (map fst m)" and k': "k' \<notin> set (map fst m)"
    unfolding p by simp_all
  show ?case
  proof (cases "k' = k")
    case True
    with d k' show ?thesis
      unfolding p by simp
  next
    case False
    with k' have "k' \<notin> set (map fst (map_set k v m))"
      unfolding keys_map_set by simp
    with False Cons.IH [OF d] show ?thesis
      unfolding p by simp
  qed
qed

lemma seen_loop_counts:
  "distinct (map fst seen) \<Longrightarrow>
   distinct (map fst (seen_loop accounts seen)) \<and>
   (\<forall>k. map_of (seen_loop accounts seen) k =
      (if count_list (filter (\<lambda>k. k \<noteq> ''-'') (map duplicateKey accounts)) k = 0
       then map_of seen k
       else Some ((case map_of seen k of None \<Rightarrow> 0 | Some n \<Rightarrow> n)
                  + count_list (filter (\<lambda>k. k \<noteq> ''-'') (map duplicateKey accounts)) k)))"
proof (induction accounts arbitrary: seen)
  case Nil
  then show ?case by simp
next
  case (Cons a accounts)
  show ?case
  proof (cases "duplicateKey a = ''-''")
    case True
    with Cons.IH [OF Cons.prems] show ?thesis
      by (simp add: Let_def)
  next
    case False
    let ?seen' = "map_set (duplicateKey a)
                    ((case map_of seen (duplicateKey a) of None \<Rightarrow> 0 | Some n \<Rightarrow> n) + 1) seen"
    have d: "distinct (map fst ?seen')"
      using Cons.prems by (rule distinct_map_set)
    have step: "seen_loop (a # accounts) seen = seen_loop accounts ?seen'"
      using False by (simp add: Let_def)
    from Cons.IH [OF d] False show ?thesis
      unfolding step by (auto simp add: map_of_map_set)
  qed
qed

lemma duplicates_of_iff:
  "k \<in> set (duplicates_of accounts) \<longleftrightarrow>
     2 \<le> count_list (filter (\<lambda>k. k \<noteq> ''-'') (map duplicateKey accounts)) k"
proof -
  let ?seen = "seen_loop accounts []"
  let ?n = "count_list (filter (\<lambda>k. k \<noteq> ''-'') (map duplicateKey accounts)) k"
  from seen_loop_counts [of "[]" accounts]
  have d: "distinct (map fst ?seen)"
    and m: "map_of ?seen k = (if ?n = 0 then None else Some ?n)"
    by simp_all
  have "k \<in> set (duplicates_of accounts) \<longleftrightarrow> (\<exists>c. (k, c) \<in> set ?seen \<and> 1 < c)"
    by (auto simp add: duplicates_of_def image_iff)
  also have "\<dots> \<longleftrightarrow> (\<exists>c. map_of ?seen k = Some c \<and> 1 < c)"
    using d by simp
  also have "\<dots> \<longleftrightarrow> 2 \<le> ?n"
    unfolding m by auto
  finally show ?thesis .
qed

lemma distinct_duplicates_of: "distinct (duplicates_of accounts)"
proof -
  from seen_loop_counts [of "[]" accounts] have "distinct (map fst (seen_loop accounts []))"
    by simp
  then show ?thesis
    unfolding duplicates_of_def by (rule distinct_map_filter)
qed

lemma count_list_two:
  assumes "i < j" "j < length xs" "xs ! i = k" "xs ! j = k"
  shows "2 \<le> count_list xs k"
proof -
  have xs: "xs = take j xs @ xs ! j # drop (Suc j) xs"
    using assms(2) by (simp add: id_take_nth_drop)
  from assms have "k \<in> set (take j xs)"
    by (auto simp add: in_set_conv_nth intro!: exI [of _ i])
  then have "1 \<le> count_list (take j xs) k"
    by (metis count_list_0_iff not_less_eq_eq le0 less_one linorder_le_less_linear)
  moreover have "count_list xs k = count_list (take j xs) k + count_list (xs ! j # drop (Suc j) xs) k"
    by (subst xs) (simp only: count_list_append)
  ultimately show ?thesis
    using assms(4) by simp
qed

lemma count_list_filter: "P k \<Longrightarrow> count_list (filter P xs) k = count_list xs k"
  by (induction xs) auto

lemma shared_pair_listed:
  assumes "i < j" "j < length accounts"
    and "pairKey (accounts ! i) = pairKey (accounts ! j)"
    and "pairKey (accounts ! i) \<noteq> ([], [])"
  shows "duplicateKey (accounts ! i) \<in> set (duplicates_of accounts)"
proof -
  let ?k = "duplicateKey (accounts ! i)"
  let ?keys = "map duplicateKey accounts"
  have same: "duplicateKey (accounts ! j) = ?k"
    by (simp only: duplicateKey_pairKey assms(3))
  have counted: "?k \<noteq> ''-''"
    using assms(4) by (simp only: duplicateKey_hyphen_iff not_False_eq_True)
  from assms(1,2) same have "2 \<le> count_list ?keys ?k"
    by (intro count_list_two [of i j]) simp_all
  with counted have "2 \<le> count_list (filter (\<lambda>k. k \<noteq> ''-'') ?keys) ?k"
    using count_list_filter [of "\<lambda>k. k \<noteq> ''-''" ?k ?keys] by simp
  then show ?thesis
    by (simp only: duplicates_of_iff)
qed

lemma parseUpload_accepts:
  assumes "parseUpload text = Inr accounts"
  shows "duplicates_of accounts = []"
proof -
  from assms have nonempty: "text \<noteq> []" and lines: "parseLines (csv_lines text) = Inr accounts"
    by (auto simp add: parseUpload_def split: if_splits)
  then show ?thesis
    by (auto simp add: parseLines_def Let_def split: if_splits prod.splits)
qed

lemma split_loop_no_sep: "sep \<notin> set s \<Longrightarrow> split_loop sep cur s = [cur @ s]"
  by (induction s arbitrary: cur) auto

lemma split_loop_at_sep:
  "sep \<notin> set x \<Longrightarrow> split_loop sep cur (x @ sep # y) = (cur @ x) # split_loop sep [] y"
  by (induction x arbitrary: cur) auto

lemma duplicateMessage_parts:
  assumes "hyphen \<notin> set x" "hyphen \<notin> set y"
  shows "duplicateMessage (x @ ''-'' @ y) = ''Account '' @ x @ '' at '' @ y"
proof -
  have "split hyphen (x @ ''-'' @ y) = [x, y]"
    using split_loop_at_sep [OF assms(1), of "[]" y] split_loop_no_sep [OF assms(2), of "[]"]
    by (simp add: split_def)
  then show ?thesis
    by (simp add: duplicateMessage_def template_part_def)
qed

text \<open>
  C1 (amended). In an accepted batch two records at different positions have different
  pairs of account number and bank name (trimmed, in lower case), unless both parts of the
  pair are empty: such records are not counted by the check. When the header and every
  row's cell count are right and two of the records share a pair that is not empty in both
  parts, the handler stops with the duplicate error and leaves the world unchanged, so no
  record is verified. The message lists the keys that occur more than once, the key of
  every shared pair among them; a key is the two parts joined by a hyphen, and it is
  printed as \<^verbatim>\<open>Account <number> at <bank>\<close> when neither part contains a hyphen.
\<close>

theorem duplicate_pairs_reject_batch:
  "(parseUpload text = Inr accounts \<longrightarrow>
      (\<forall>i j. i < j \<and> j < length accounts \<and> pairKey (accounts ! i) = pairKey (accounts ! j)
          \<longrightarrow> pairKey (accounts ! i) = ([], [])))
   \<and> (csv_lines text = hline # rows \<and> rows \<noteq> []
        \<and> missingHeaders (robustParseCsvRow hline) = []
        \<and> forEach_line (length (robustParseCsvRow hline)) (headerMap (robustParseCsvRow hline))
             rows 0 ([], []) = (accepted, [])
        \<and> i < j \<and> j < length accepted \<and> pairKey (accepted ! i) = pairKey (accepted ! j)
        \<and> pairKey (accepted ! i) \<noteq> ([], []) \<longrightarrow>
          handleBulkUpload verify text (st, w) =
            (showError (''Duplicate entries found in the file. Please remove them and try again. Duplicates: ''
                          @ join ''; '' (map duplicateMessage (duplicates_of accepted)) @ ''.'') st, w)
        \<and> duplicateKey (accepted ! i) \<in> set (duplicates_of accepted)
        \<and> duplicateKey (accepted ! i)
            = fst (pairKey (accepted ! i)) @ ''-'' @ snd (pairKey (accepted ! i)))
   \<and> (hyphen \<notin> set x \<and> hyphen \<notin> set y \<longrightarrow>
        duplicateMessage (x @ ''-'' @ y) = ''Account '' @ x @ '' at '' @ y)"
proof (intro conjI impI allI)
  fix i j
  assume acc: "parseUpload text = Inr accounts"
    and ij: "i < j \<and> j < length accounts \<and> pairKey (accounts ! i) = pairKey (accounts ! j)"
  show "pairKey (accounts ! i) = ([], [])"
  proof (rule ccontr)
    assume filled: "pairKey (accounts ! i) \<noteq> ([], [])"
    from ij have "i < j" "j < length accounts" "pairKey (accounts ! i) = pairKey (accounts ! j)"
      by blast+
    from this filled have "duplicateKey (accounts ! i) \<in> set (duplicates_of accounts)"
      by (rule shared_pair_listed)
    with parseUpload_accepts [OF acc] show False
      by simp
  qed
next
  assume h: "csv_lines text = hline # rows \<and> rows \<noteq> []
        \<and> missingHeaders (robustParseCsvRow hline) = []
        \<and> forEach_line (length (robustParseCsvRow hline)) (headerMap (robustParseCsvRow hline))
             rows 0 ([], []) = (accepted, [])
        \<and> i < j \<and> j < length accepted \<and> pairKey (accepted ! i) = pairKey (accepted ! j)
        \<and> pairKey (accepted ! i) \<noteq> ([], [])"
  then have "i < j" "j < length accepted" "pairKey (accepted ! i) = pairKey (accepted ! j)"
      "pairKey (accepted ! i) \<noteq> ([], [])"
    by blast+
  then have listed: "duplicateKey (accepted ! i) \<in> set (duplicates_of accepted)"
    by (rule shared_pair_listed)
  then have dups: "duplicates_of accepted \<noteq> []"
    by auto
  from h have nonempty: "text \<noteq> []"
    using csv_lines_Nil by auto
  from h have rows: "rows \<noteq> []"
    by simp
  have "parseLines (hline # rows) =
      Inl (''Duplicate entries found in the file. Please remove them and try again. Duplicates: ''
             @ join ''; '' (map duplicateMessage (duplicates_of accepted)) @ ''.'')"
    using h dups by (simp add: parseLines_rows [OF rows] Let_def)
  with h nonempty show "handleBulkUpload verify text (st, w) =
            (showError (''Duplicate entries found in the file. Please remove them and try again. Duplicates: ''
                          @ join ''; '' (map duplicateMessage (duplicates_of accepted)) @ ''.'') st, w)"
    by (simp add: handleBulkUpload_def parseUpload_def)
  from listed show "duplicateKey (accepted ! i) \<in> set (duplicates_of accepted)" .
  show "duplicateKey (accepted ! i)
            = fst (pairKey (accepted ! i)) @ ''-'' @ snd (pairKey (accepted ! i))"
    by (rule duplicateKey_pairKey)
next
  assume "hyphen \<notin> set x \<and> hyphen \<notin> set y"
  then show "duplicateMessage (x @ ''-'' @ y) = ''Account '' @ x @ '' at '' @ y"
    by (intro duplicateMessage_parts) simp_all
qed

text \<open>
  C1 as stated fails: two records without account number and bank name share the empty
  pair and are both accepted.
\<close>

theorem shared_empty_pair_counterexample:
  "parseUpload ''beneficiaryName,bankName,accountNumber,bvn\<newline>Ada,,,12345678901\<newline>Bob,,,22345678901''
     = Inr [\<lparr> beneficiaryName = ''Ada'', bankName = [], accountNumber = [], bvn = ''12345678901'' \<rparr>,
            \<lparr> beneficiaryName = ''Bob'', bankName = [], accountNumber = [], bvn = ''22345678901'' \<rparr>]
   \<and> pairKey \<lparr> beneficiaryName = ''Ada'', bankName = [], accountNumber = [], bvn = ''12345678901'' \<rparr>
     = pairKey \<lparr> beneficiaryName = ''Bob'', bankName = [], accountNumber = [], bvn = ''22345678901'' \<rparr>"
  by code_simp


theorem duplicate_pairs_reject_batch_witness:
  "parseUpload ''beneficiaryName,bankName,accountNumber,bvn\<newline>Ada,Zenith,0123456780,12345678901''
     = Inr [\<lparr> beneficiaryName = ''Ada'', bankName = ''Zenith'', accountNumber = ''0123456780'',
              bvn = ''12345678901'' \<rparr>]
   \<and> pairKey \<lparr> beneficiaryName = ''Ada'', bankName = ''Zenith'', accountNumber = ''0123456789'',
               bvn = ''12345678901'' \<rparr>
     = pairKey \<lparr> beneficiaryName = ''Bob'', bankName = ''ZENITH'', accountNumber = ''0123456789'',
                 bvn = ''22345678901'' \<rparr>
   \<and> handleBulkUpload (\<lambda>a w. (Rejects OtherValue, w))
        ''beneficiaryName,bankName,accountNumber,bvn\<newline>Ada,Zenith,0123456789,12345678901\<newline>Bob, ZENITH ,0123456789,22345678901''
        (initial_state, ())
     = (showError ''Duplicate entries found in the file. Please remove them and try again. Duplicates: Account 0123456789 at zenith.''
          initial_state, ())
   \<and> duplicateMessage (''0123456789'' @ ''-'' @ ''zenith'') = ''Account '' @ ''0123456789'' @ '' at '' @ ''zenith''"
proof -
  define text1 where "text1 = ''beneficiaryName,bankName,accountNumber,bvn\<newline>Ada,Zenith,0123456780,12345678901''"
  define text2 where "text2 = ''beneficiaryName,bankName,accountNumber,bvn\<newline>Ada,Zenith,0123456789,12345678901\<newline>Bob, ZENITH ,0123456789,22345678901''"
  define hline where "hline = ''beneficiaryName,bankName,accountNumber,bvn''"
  define rows where "rows = [''Ada,Zenith,0123456789,12345678901'', ''Bob, ZENITH ,0123456789,22345678901'']"
  define ada where "ada = \<lparr> beneficiaryName = ''Ada'', bankName = ''Zenith'', accountNumber = ''0123456789'',
               bvn = ''12345678901'' \<rparr>"
  define bob where "bob = \<lparr> beneficiaryName = ''Bob'', bankName = ''ZENITH'', accountNumber = ''0123456789'',
                 bvn = ''22345678901'' \<rparr>"
  define verify :: "unit verifier" where "verify = (\<lambda>a w. (Rejects OtherValue, w))"
  note inst = duplicate_pairs_reject_batch [of text2 "[ada, bob]" hline rows "[ada, bob]" 0 1 verify
      initial_state "()" "''0123456789''" "''zenith''"]
  have accepted: "parseUpload text1
     = Inr [\<lparr> beneficiaryName = ''Ada'', bankName = ''Zenith'', accountNumber = ''0123456780'',
              bvn = ''12345678901'' \<rparr>]"
    unfolding text1_def by code_simp
  have h1: "csv_lines text2 = hline # rows"
    unfolding text2_def hline_def rows_def by code_simp
  have h2: "rows \<noteq> []"
    by (simp add: rows_def)
  have h3: "missingHeaders (robustParseCsvRow hline) = []"
    unfolding hline_def by code_simp
  have h4: "forEach_line (length (robustParseCsvRow hline)) (headerMap (robustParseCsvRow hline))
             rows 0 ([], []) = ([ada, bob], [])"
    unfolding hline_def rows_def ada_def bob_def by code_simp
  have h5: "pairKey ([ada, bob] ! 0) = pairKey ([ada, bob] ! 1)"
    unfolding ada_def bob_def by code_simp
  have h6: "pairKey ([ada, bob] ! 0) \<noteq> ([], [])"
    unfolding ada_def bob_def by code_simp
  have ev: "join ''; '' (map duplicateMessage (duplicates_of [ada, bob])) = ''Account 0123456789 at zenith''"
    unfolding ada_def bob_def by code_simp
  have h7: "hyphen \<notin> set ''0123456789'' \<and> hyphen \<notin> set ''zenith''"
    by simp
  from inst h1 h2 h3 h4 h5 h6
  have "handleBulkUpload verify text2 (initial_state, ()) =
            (showError (''Duplicate entries found in the file. Please remove them and try again. Duplicates: ''
                          @ join ''; '' (map duplicateMessage (duplicates_of [ada, bob])) @ ''.'') initial_state, ())"
    by simp
  then have run: "handleBulkUpload verify text2 (initial_state, ()) =
      (showError ''Duplicate entries found in the file. Please remove them and try again. Duplicates: Account 0123456789 at zenith.''
          initial_state, ())"
    unfolding ev by simp
  from inst h7 have msg: "duplicateMessage (''0123456789'' @ ''-'' @ ''zenith'') = ''Account '' @ ''0123456789'' @ '' at '' @ ''zenith''"
    by blast
  from accepted h5 run msg show ?thesis
    unfolding text1_def text2_def ada_def bob_def verify_def by simp
qed

end
